theory Spec2Isabelle
  imports Main
begin

section \<open>SyferText tokenizer: data model\<close>

text \<open>
  The development embeds \<^verbatim>\<open>src/syfertext/tokenizer.py\<close>. Python integers are
  \<open>int\<close>, the document text is a \<open>string\<close> (one \<open>char\<close> per character of the text),
  a raised exception is a value of \<open>error\<close>, and a \<^verbatim>\<open>while\<close> loop whose termination
  depends on the configured matchers returns \<open>None\<close> when it does not return.
\<close>

datatype error = IndexError

text \<open>\<^verbatim>\<open>class TokenMeta\<close>: \<open>end_pos = None\<close> is Python's \<^verbatim>\<open>None\<close> ("up to the end of the text").\<close>

record TokenMeta =
  start_pos :: int
  end_pos :: "int option"
  space_after :: bool
  is_space :: bool

text \<open>The part of \<^verbatim>\<open>Doc\<close> the tokenizer touches: the text and the list \<^verbatim>\<open>doc.container\<close>.\<close>

record Doc =
  doc_text :: string
  container :: "TokenMeta list"

text \<open>A \<^verbatim>\<open>re.Match\<close> object, as far as the tokenizer reads it: \<^verbatim>\<open>start()\<close> and \<^verbatim>\<open>end()\<close>.\<close>

record Match =
  match_start :: int
  match_end :: int

text \<open>
  The attributes of \<^verbatim>\<open>Tokenizer\<close> set by \<^verbatim>\<open>__init__\<close>. Each matcher may be \<^verbatim>\<open>None\<close>.
  \<open>special_cases\<close> maps a key to the list of the \<^verbatim>\<open>ORTH\<close> strings of its entries.
\<close>

record Tokenizer =
  prefix_search :: "(string \<Rightarrow> Match option) option"
  suffix_search :: "(string \<Rightarrow> Match option) option"
  infix_finditer :: "(string \<Rightarrow> Match list) option"
  special_cases :: "string \<rightharpoonup> string list"

section \<open>Python primitives\<close>

text \<open>\<^verbatim>\<open>str.isspace\<close> on one character, for the code points below 256.\<close>

definition isspace :: "char \<Rightarrow> bool" where
  "isspace c = (of_char c \<in> {9, 10, 11, 12, 13, 28, 29, 30, 31, 32, 133, 160 :: nat})"

text \<open>A slice bound \<open>b\<close> on a sequence of length \<open>n\<close>: negative bounds count from the end,
  and every bound is clipped to the sequence.\<close>

definition slice_bound :: "int \<Rightarrow> nat \<Rightarrow> nat" where
  "slice_bound b n = (if b < 0 then nat (max 0 (b + int n)) else min (nat b) n)"

text \<open>\<^verbatim>\<open>s[a:b]\<close>, \<^verbatim>\<open>s[a:]\<close> and \<^verbatim>\<open>s[:b]\<close>.\<close>

definition py_slice :: "'a list \<Rightarrow> int \<Rightarrow> int \<Rightarrow> 'a list" where
  "py_slice s a b =
     (let lo = slice_bound a (length s); hi = slice_bound b (length s)
      in take (hi - lo) (drop lo s))"

definition py_slice_from :: "'a list \<Rightarrow> int \<Rightarrow> 'a list" where
  "py_slice_from s a = drop (slice_bound a (length s)) s"

definition py_slice_to :: "'a list \<Rightarrow> int \<Rightarrow> 'a list" where
  "py_slice_to s b = take (slice_bound b (length s)) s"

section \<open>Matcher adapters\<close>

definition find_prefix :: "Tokenizer \<Rightarrow> string \<Rightarrow> int" where
  "find_prefix self str =
     (case prefix_search self of
        None \<Rightarrow> 0
      | Some search \<Rightarrow>
          (case search str of
             None \<Rightarrow> 0
           | Some m \<Rightarrow> match_end m - match_start m))"

definition find_suffix :: "Tokenizer \<Rightarrow> string \<Rightarrow> int" where
  "find_suffix self str =
     (case suffix_search self of
        None \<Rightarrow> 0
      | Some search \<Rightarrow>
          (case search str of
             None \<Rightarrow> 0
           | Some m \<Rightarrow> match_end m - match_start m))"

text \<open>\<^verbatim>\<open>find_infix\<close> returns \<^verbatim>\<open>0\<close> without a matcher; the callers only test that value
  for truth, where \<^verbatim>\<open>0\<close> and the empty list agree.\<close>

definition find_infix :: "Tokenizer \<Rightarrow> string \<Rightarrow> Match list" where
  "find_infix self str =
     (case infix_finditer self of
        None \<Rightarrow> []
      | Some finditer \<Rightarrow> finditer str)"

section \<open>Span construction helpers\<close>

text \<open>\<^verbatim>\<open>_get_prefix_token_meta\<close> and \<^verbatim>\<open>_get_suffix_token_meta\<close>; the former also prints the
  length of the prefix, which the model leaves out.\<close>

definition get_prefix_token_meta ::
  "Tokenizer \<Rightarrow> string \<Rightarrow> int \<Rightarrow> TokenMeta option \<times> string \<times> int" where
  "get_prefix_token_meta self substring pos =
     (let pre_len = find_prefix self substring in
      if pre_len = 0 then (None, substring, pos)
      else
        let end_pos = pos + pre_len - 1;
            token_meta = \<lparr>start_pos = pos, end_pos = Some end_pos,
                          space_after = False, is_space = False\<rparr>
        in (Some token_meta, py_slice_from substring pre_len, end_pos + 1))"

definition get_suffix_token_meta ::
  "Tokenizer \<Rightarrow> string \<Rightarrow> int \<Rightarrow> TokenMeta option \<times> string" where
  "get_suffix_token_meta self substring pos =
     (let suff_len = find_suffix self substring in
      if suff_len = 0 then (None, substring)
      else
        let pos_suffix = pos + int (length substring) - suff_len;
            end_pos_suffix = pos_suffix + suff_len - 1;
            token_meta = \<lparr>start_pos = pos_suffix, end_pos = Some end_pos_suffix,
                          space_after = False, is_space = False\<rparr>
        in (Some token_meta, py_slice_to substring (- suff_len)))"

text \<open>The body of the \<^verbatim>\<open>for match in infixes\<close> loop of \<^verbatim>\<open>_get_infix_token_meta\<close>. The loop
  state is \<open>(offset, end_pos, pos, infix_tokens_metas)\<close>.\<close>

definition infix_step ::
  "string \<Rightarrow> int \<times> int \<times> int \<times> TokenMeta list \<Rightarrow> Match \<Rightarrow> int \<times> int \<times> int \<times> TokenMeta list" where
  "infix_step substring st m =
     (case st of (offset, end_pos0, pos0, metas0) \<Rightarrow>
        let (end_pos1, pos1, metas1) =
              (if py_slice substring offset (match_start m) \<noteq> [] then
                 let e = pos0 + int (length (py_slice substring offset (match_start m))) - 1
                 in (e, e + 1,
                     metas0 @ [\<lparr>start_pos = pos0, end_pos = Some e,
                                space_after = False, is_space = False\<rparr>])
               else (end_pos0, pos0, metas0));
            (end_pos2, pos2, metas2) =
              (if py_slice substring (match_start m) (match_end m) \<noteq> [] then
                 let e = pos1 + int (length (py_slice substring (match_start m) (match_end m))) - 1
                 in (e, e + 1,
                     metas1 @ [\<lparr>start_pos = pos1, end_pos = Some e,
                                space_after = False, is_space = False\<rparr>])
               else (end_pos1, pos1, metas1))
        in (match_end m, end_pos2, pos2, metas2))"

definition get_infix_token_meta :: "Tokenizer \<Rightarrow> string \<Rightarrow> int \<Rightarrow> TokenMeta list" where
  "get_infix_token_meta self substring pos =
     (case foldl (infix_step substring) (0, 0, pos, []) (find_infix self substring) of
        (offset, end_pos0, pos0, metas) \<Rightarrow>
          if py_slice_from substring offset \<noteq> [] then
            let pos1 = end_pos0 + 1;
                e = pos1 + int (length (py_slice_from substring offset)) - 1
            in metas @ [\<lparr>start_pos = pos1, end_pos = Some e,
                          space_after = False, is_space = False\<rparr>]
          else metas)"

text \<open>The loop of \<^verbatim>\<open>_get_special_cases_token_meta\<close> over the \<^verbatim>\<open>ORTH\<close> strings of one
  entry of the exception table.\<close>

fun special_cases_loop :: "string list \<Rightarrow> int \<Rightarrow> TokenMeta list" where
  "special_cases_loop [] pos = []"
| "special_cases_loop (ORTH # es) pos =
     (let end_pos = pos + int (length ORTH) - 1
      in \<lparr>start_pos = pos, end_pos = Some end_pos, space_after = False, is_space = False\<rparr>
         # special_cases_loop es (end_pos + 1))"

text \<open>\<^verbatim>\<open>self.special_cases[substring]\<close> raises on a missing key; every call is guarded
  by \<^verbatim>\<open>substring in self.special_cases\<close>, and the model takes the key's entry as argument
  at the guarded call.\<close>

definition get_special_cases_token_meta :: "string list \<Rightarrow> int \<Rightarrow> TokenMeta list" where
  "get_special_cases_token_meta entry pos = special_cases_loop entry pos"

section \<open>The affix-stripping loop\<close>

text \<open>The state of the \<^verbatim>\<open>while\<close> loop of \<^verbatim>\<open>_split_affixes\<close> is
  \<open>(substring, pos, prefixes, suffixes)\<close>. One pass through the body either leaves the
  loop by \<^verbatim>\<open>break\<close> or reaches the end of the body.\<close>

type_synonym affix_state = "string \<times> int \<times> TokenMeta list \<times> TokenMeta list"

datatype loop_exit = Break affix_state | Continue affix_state

definition affix_body :: "Tokenizer \<Rightarrow> affix_state \<Rightarrow> loop_exit" where
  "affix_body self st =
     (case st of (substring, pos, prefixes, suffixes) \<Rightarrow>
        if special_cases self substring \<noteq> None then Break st
        else
          let (substring1, pos1, prefixes1, brk) =
                (if find_prefix self substring \<noteq> 0 then
                   (case get_prefix_token_meta self substring pos of
                      (token_meta, s, p) \<Rightarrow>
                        (s, p,
                         (case token_meta of None \<Rightarrow> prefixes | Some t \<Rightarrow> prefixes @ [t]),
                         special_cases self s \<noteq> None))
                 else (substring, pos, prefixes, False))
          in if brk then Break (substring1, pos1, prefixes1, suffixes)
             else if find_suffix self substring1 \<noteq> 0 then
               (case get_suffix_token_meta self substring1 pos1 of
                  (token_meta, s) \<Rightarrow>
                    Continue (s, pos1, prefixes1,
                      (case token_meta of None \<Rightarrow> suffixes | Some t \<Rightarrow> suffixes @ [t])))
             else Continue (substring1, pos1, prefixes1, suffixes))"

partial_function (option) affix_loop :: "Tokenizer \<Rightarrow> affix_state \<Rightarrow> affix_state option" where
  "affix_loop self st =
     (if find_prefix self (fst st) \<noteq> 0 \<or> find_suffix self (fst st) \<noteq> 0 then
        (case affix_body self st of
           Break st' \<Rightarrow> Some st'
         | Continue st' \<Rightarrow> affix_loop self st')
      else Some st)"

declare affix_loop.simps [code]

text \<open>\<^verbatim>\<open>_split_affixes\<close> returns
  \<open>(substring, pos, prefixes, suffixes, infixes, special_tokens)\<close>.\<close>

definition split_affixes ::
  "Tokenizer \<Rightarrow> string \<Rightarrow> int \<Rightarrow>
   (string \<times> int \<times> TokenMeta list \<times> TokenMeta list \<times> TokenMeta list \<times> TokenMeta list) option" where
  "split_affixes self substring start =
     (if substring \<noteq> [] then
        (case affix_loop self (substring, start, [], []) of
           None \<Rightarrow> None
         | Some (substring1, pos, prefixes, suffixes) \<Rightarrow>
             (case special_cases self substring1 of
                Some entry \<Rightarrow>
                  Some ([], pos, prefixes, suffixes, [], get_special_cases_token_meta entry pos)
              | None \<Rightarrow>
                  if find_infix self substring1 \<noteq> [] then
                    Some ([], pos, prefixes, suffixes,
                          get_infix_token_meta self substring1 pos, [])
                  else Some (substring1, pos, prefixes, suffixes, [], [])))
      else Some (substring, start, [], [], [], []))"

section \<open>Attaching the spans of a run to the document\<close>

text \<open>The spans \<^verbatim>\<open>_attach_tokens\<close> adds to \<^verbatim>\<open>doc.container\<close> before the fix-up of the last
  span: prefixes, special tokens, the remaining substring, infixes, reversed suffixes.\<close>

definition run_tokens ::
  "string \<Rightarrow> int \<Rightarrow> TokenMeta list \<Rightarrow> TokenMeta list \<Rightarrow> TokenMeta list \<Rightarrow> TokenMeta list
   \<Rightarrow> TokenMeta list" where
  "run_tokens substring start prefixes suffixes infixes special_tokens =
     (if length prefixes \<noteq> 0 then prefixes else [])
     @ (if length special_tokens \<noteq> 0 then special_tokens else [])
     @ (if substring \<noteq> [] then
          [\<lparr>start_pos = start, end_pos = Some (start + int (length substring) - 1),
            space_after = False, is_space = False\<rparr>]
        else [])
     @ (if length infixes \<noteq> 0 then infixes else [])
     @ (if length suffixes \<noteq> 0 then rev suffixes else [])"

text \<open>\<^verbatim>\<open>doc.container.pop()\<close> raises \<^verbatim>\<open>IndexError\<close> on an empty list.\<close>

definition attach_tokens ::
  "Doc \<Rightarrow> string \<Rightarrow> int \<Rightarrow> bool \<Rightarrow> TokenMeta list \<Rightarrow> TokenMeta list \<Rightarrow> TokenMeta list
   \<Rightarrow> TokenMeta list \<Rightarrow> error + Doc" where
  "attach_tokens doc substring start space_after0 prefixes suffixes infixes special_tokens =
     (let c = container doc
              @ run_tokens substring start prefixes suffixes infixes special_tokens
      in if c = [] then Inl IndexError
         else
           let last_token_meta = (last c)\<lparr>space_after := space_after0\<rparr>
           in Inr (doc\<lparr>container := butlast c @ [last_token_meta]\<rparr>))"

definition tokenize :: "Tokenizer \<Rightarrow> string \<Rightarrow> TokenMeta \<Rightarrow> Doc \<Rightarrow> (error + Doc) option" where
  "tokenize self substring token_meta doc =
     (case split_affixes self substring (start_pos token_meta) of
        None \<Rightarrow> None
      | Some (substring1, pos, prefixes, suffixes, infixes, special_tokens) \<Rightarrow>
          Some (attach_tokens doc substring1 pos (space_after token_meta)
                  prefixes suffixes infixes special_tokens))"

section \<open>The segmentation driver\<close>

text \<open>The loop state of \<^verbatim>\<open>__call__\<close> is \<open>(pos, is_space, doc)\<close>; \<open>pos\<close> and the loop index
  are never negative. The first half of the loop body closes the run that ends before
  index \<open>i\<close>.\<close>

type_synonym call_state = "nat \<times> bool \<times> Doc"

definition close_run ::
  "Tokenizer \<Rightarrow> string \<Rightarrow> nat \<Rightarrow> bool \<Rightarrow> call_state \<Rightarrow> (error + call_state) option" where
  "close_run self txt i is_current_space st =
     (case st of (pos, is_space0, doc) \<Rightarrow>
        let token_meta = \<lparr>start_pos = int pos, end_pos = Some (int i - 1),
                          space_after = is_current_space, is_space = is_space0\<rparr>;
            r = (if is_space0 then Some (Inr (doc\<lparr>container := container doc @ [token_meta]\<rparr>))
                 else tokenize self (take (i - pos) (drop pos txt)) token_meta doc)
        in (case r of
              None \<Rightarrow> None
            | Some (Inl e) \<Rightarrow> Some (Inl e)
            | Some (Inr doc1) \<Rightarrow>
                let pos1 = (if is_current_space then i + 1 else i);
                    is_space1 = (if pos1 < length txt then isspace (txt ! pos1) else is_space0)
                in Some (Inr (pos1, is_space1, doc1))))"

text \<open>The second half of the loop body creates the last token at the end of the text.\<close>

definition last_run ::
  "Tokenizer \<Rightarrow> string \<Rightarrow> bool \<Rightarrow> call_state \<Rightarrow> (error + call_state) option" where
  "last_run self txt is_current_space st =
     (case st of (pos, is_space0, doc) \<Rightarrow>
        let token_meta = \<lparr>start_pos = int pos, end_pos = None,
                          space_after = is_current_space, is_space = is_space0\<rparr>;
            r = (if is_space0 then Some (Inr (doc\<lparr>container := container doc @ [token_meta]\<rparr>))
                 else tokenize self (drop pos txt) token_meta doc)
        in (case r of
              None \<Rightarrow> None
            | Some (Inl e) \<Rightarrow> Some (Inl e)
            | Some (Inr doc1) \<Rightarrow> Some (Inr (pos, is_space0, doc1))))"

definition call_body ::
  "Tokenizer \<Rightarrow> string \<Rightarrow> nat \<times> char \<Rightarrow> call_state \<Rightarrow> (error + call_state) option" where
  "call_body self txt ic st =
     (case ic of (i, char) \<Rightarrow>
        let is_current_space = isspace char in
        (case (if is_current_space \<noteq> fst (snd st) then close_run self txt i is_current_space st
               else Some (Inr st)) of
           None \<Rightarrow> None
         | Some (Inl e) \<Rightarrow> Some (Inl e)
         | Some (Inr st1) \<Rightarrow>
             if int i = int (length txt) - 1 \<and> fst st1 \<le> i
             then last_run self txt is_current_space st1
             else Some (Inr st1)))"

fun call_loop ::
  "Tokenizer \<Rightarrow> string \<Rightarrow> (nat \<times> char) list \<Rightarrow> call_state \<Rightarrow> (error + Doc) option" where
  "call_loop self txt [] st = Some (Inr (snd (snd st)))"
| "call_loop self txt (ic # rest) st =
     (case call_body self txt ic st of
        None \<Rightarrow> None
      | Some (Inl e) \<Rightarrow> Some (Inl e)
      | Some (Inr st1) \<Rightarrow> call_loop self txt rest st1)"

text \<open>\<^verbatim>\<open>Tokenizer.__call__\<close> on a given text: \<^verbatim>\<open>text[0]\<close> raises \<^verbatim>\<open>IndexError\<close> on the
  empty string. Fetching the text from a worker by \<^verbatim>\<open>text_id\<close> and returning a pointer to
  the document instead of the document belong to the workers; the model takes the text and
  returns the document.\<close>

definition call :: "Tokenizer \<Rightarrow> string \<Rightarrow> (error + Doc) option" where
  "call self txt =
     (if txt = [] then Some (Inl IndexError)
      else call_loop self txt (enumerate 0 txt)
             (0, isspace (txt ! 0), \<lparr>doc_text = txt, container = []\<rparr>))"

section \<open>Well-formed configurations and span sequences\<close>

text \<open>A match of a regular expression on \<open>s\<close> lies within \<open>s\<close>.\<close>

definition match_within :: "string \<Rightarrow> Match \<Rightarrow> bool" where
  "match_within s m =
     (0 \<le> match_start m \<and> match_start m \<le> match_end m \<and> match_end m \<le> int (length s))"

definition wf_search :: "(string \<Rightarrow> Match option) option \<Rightarrow> bool" where
  "wf_search f = (\<forall>search s m. f = Some search \<and> search s = Some m \<longrightarrow> match_within s m)"

text \<open>The matches of \<^verbatim>\<open>finditer\<close> come in text order and do not overlap.\<close>

fun ordered_matches :: "string \<Rightarrow> int \<Rightarrow> Match list \<Rightarrow> bool" where
  "ordered_matches s offset [] = True"
| "ordered_matches s offset (m # ms) =
     (offset \<le> match_start m \<and> match_start m \<le> match_end m \<and> match_end m \<le> int (length s)
      \<and> ordered_matches s (match_end m) ms)"

definition wf_finditer :: "(string \<Rightarrow> Match list) option \<Rightarrow> bool" where
  "wf_finditer f =
     (\<forall>finditer s. f = Some finditer \<longrightarrow>
        ordered_matches s 0 (finditer s)
        \<and> (finditer s \<noteq> [] \<longrightarrow> 0 < match_end (last (finditer s))))"

text \<open>The sub-token texts of an exception-table entry add up to the length of its key.\<close>

definition wf_special_cases :: "(string \<rightharpoonup> string list) \<Rightarrow> bool" where
  "wf_special_cases rules =
     (\<forall>key entry. rules key = Some entry \<longrightarrow> sum_list (map length entry) = length key)"

definition wf_tokenizer :: "Tokenizer \<Rightarrow> bool" where
  "wf_tokenizer self =
     (wf_search (prefix_search self) \<and> wf_search (suffix_search self)
      \<and> wf_finditer (infix_finditer self) \<and> wf_special_cases (special_cases self))"

text \<open>\<open>chain a ts b\<close>: the spans \<open>ts\<close>, built inside one run, have concrete ends and unset
  flags, and tile the positions from \<open>a\<close> up to \<open>b\<close> (excluded) without gap or overlap.\<close>

fun chain :: "int \<Rightarrow> TokenMeta list \<Rightarrow> int \<Rightarrow> bool" where
  "chain a [] b = (a = b)"
| "chain a (t # ts) b =
     (start_pos t = a \<and> \<not> space_after t \<and> \<not> is_space t
      \<and> (case end_pos t of None \<Rightarrow> False | Some e \<Rightarrow> a \<le> e + 1 \<and> chain (e + 1) ts b))"

text \<open>The end of a span in the document \<open>D\<close>: \<^verbatim>\<open>None\<close> stands for the last index.\<close>

definition effective_end :: "string \<Rightarrow> TokenMeta \<Rightarrow> int" where
  "effective_end D t = (case end_pos t of None \<Rightarrow> int (length D) - 1 | Some e \<Rightarrow> e)"

text \<open>The driver does not emit the single whitespace character that closes a non-space
  run; it records it as \<open>space_after\<close> on the last span of that run. \<open>skipped t\<close> is the
  number of characters so recorded after \<open>t\<close>.\<close>

definition skipped :: "TokenMeta \<Rightarrow> int" where
  "skipped t = (if space_after t \<and> \<not> is_space t then 1 else 0)"

text \<open>\<open>contig D a ts b\<close>: the spans \<open>ts\<close> of the document \<open>D\<close>, each followed by the
  character it records as skipped, tile the positions from \<open>a\<close> up to \<open>b\<close> (excluded).\<close>

fun contig :: "string \<Rightarrow> int \<Rightarrow> TokenMeta list \<Rightarrow> int \<Rightarrow> bool" where
  "contig D a [] b = (a = b)"
| "contig D a (t # ts) b =
     (start_pos t = a \<and> a \<le> effective_end D t + 1
      \<and> contig D (effective_end D t + 1 + skipped t) ts b)"

text \<open>The substring of \<open>D\<close> a span denotes: \<^verbatim>\<open>text[start_pos : end_pos + 1]\<close>, or
  \<^verbatim>\<open>text[start_pos:]\<close> when \<open>end_pos\<close> is \<^verbatim>\<open>None\<close>.\<close>

definition span_text :: "string \<Rightarrow> TokenMeta \<Rightarrow> string" where
  "span_text D t =
     (case end_pos t of
        None \<Rightarrow> py_slice_from D (start_pos t)
      | Some e \<Rightarrow> py_slice D (start_pos t) (e + 1))"

text \<open>The substring of a span together with the skipped character after it, if any.\<close>

definition span_text_with_ws :: "string \<Rightarrow> TokenMeta \<Rightarrow> string" where
  "span_text_with_ws D t =
     span_text D t
     @ py_slice D (effective_end D t + 1) (effective_end D t + 1 + skipped t)"

text \<open>The invariant of the affix-stripping loop on a run spanning the positions from \<open>a\<close>
  up to \<open>b\<close>: the prefixes tile the positions from \<open>a\<close> to \<open>pos\<close>, and the suffixes,
  reversed, tile those from the end of the remaining substring to \<open>b\<close>.\<close>

definition affix_inv :: "int \<Rightarrow> int \<Rightarrow> affix_state \<Rightarrow> bool" where
  "affix_inv a b st =
     (case st of (substring, pos, prefixes, suffixes) \<Rightarrow>
        chain a prefixes pos \<and> chain (pos + int (length substring)) (rev suffixes) b)"

text \<open>The invariant of the loop over the infix matches of a substring that starts at
  position \<open>p0\<close>: the spans emitted so far tile the first \<open>offset\<close> characters, and
  \<open>end_pos\<close> is the end of the last one as soon as one was emitted.\<close>

definition infix_inv :: "string \<Rightarrow> int \<Rightarrow> int \<times> int \<times> int \<times> TokenMeta list \<Rightarrow> bool" where
  "infix_inv s p0 st =
     (case st of (offset, e, pos, metas) \<Rightarrow>
        0 \<le> offset \<and> offset \<le> int (length s) \<and> pos = p0 + offset
        \<and> chain p0 metas pos \<and> (0 < offset \<longrightarrow> e + 1 = pos))"

text \<open>\<open>spans_ok D ts b\<close>: the spans \<open>ts\<close> account for the positions of \<open>D\<close> below \<open>b\<close>,
  and every whitespace-run span among them that has a concrete end has \<open>space_after\<close>
  unset.\<close>

definition spans_ok :: "string \<Rightarrow> TokenMeta list \<Rightarrow> int \<Rightarrow> bool" where
  "spans_ok D ts b =
     (contig D 0 ts b
      \<and> (\<forall>t \<in> set ts. is_space t \<and> end_pos t \<noteq> None \<longrightarrow> \<not> space_after t))"

text \<open>The invariant of the driver's loop before it reads the character at index \<open>i\<close>:
  the spans emitted so far account for the positions below \<open>pos\<close>, the characters from
  \<open>pos\<close> up to \<open>i\<close> (excluded) belong to the open run, and \<open>is_space\<close> is the class of
  the character at \<open>pos\<close>.\<close>

definition call_inv :: "string \<Rightarrow> nat \<Rightarrow> call_state \<Rightarrow> bool" where
  "call_inv D i st =
     (case st of (pos, is_space0, doc) \<Rightarrow>
        pos \<le> i \<and> i \<le> length D
        \<and> spans_ok D (container doc) (int pos)
        \<and> (\<forall>k. pos \<le> k \<and> k < i \<longrightarrow> isspace (D ! k) = is_space0)
        \<and> (pos < length D \<longrightarrow> isspace (D ! pos) = is_space0))"

definition drop_empty_match :: "(string \<Rightarrow> Match option) \<Rightarrow> string \<Rightarrow> Match option" where
  "drop_empty_match search s =
     (case search s of
        None \<Rightarrow> None
      | Some m \<Rightarrow> if match_end m - match_start m = 0 then None else Some m)"

definition without_empty_matches :: "Tokenizer \<Rightarrow> Tokenizer" where
  "without_empty_matches self =
     self\<lparr>prefix_search := map_option drop_empty_match (prefix_search self),
          suffix_search := map_option drop_empty_match (suffix_search self)\<rparr>"

section \<open>Example configurations\<close>

text \<open>A tokenizer without matchers and with an empty exception table.\<close>

definition no_rules :: Tokenizer where
  "no_rules = \<lparr>prefix_search = None, suffix_search = None, infix_finditer = None,
                special_cases = Map.empty\<rparr>"

text \<open>A prefix matcher in the manner of the regular expression \<^verbatim>\<open>^\(?\<close>: it always
  matches, possibly the empty string.\<close>

definition open_paren :: "string \<Rightarrow> Match option" where
  "open_paren s =
     Some \<lparr>match_start = 0,
           match_end = (case s of [] \<Rightarrow> 0 | c # _ \<Rightarrow> if c = CHR ''('' then 1 else 0)\<rparr>"

text \<open>A suffix matcher in the manner of \<^verbatim>\<open>\)?$\<close>.\<close>

definition close_paren :: "string \<Rightarrow> Match option" where
  "close_paren s =
     Some \<lparr>match_start = int (length s) - (if s \<noteq> [] \<and> last s = CHR '')'' then 1 else 0),
           match_end = int (length s)\<rparr>"

text \<open>An infix matcher in the manner of \<^verbatim>\<open>-\<close>: \<open>hyphens k s\<close> lists the hyphens of \<open>s\<close>,
  whose first character has index \<open>k\<close>.\<close>

fun hyphens :: "int \<Rightarrow> string \<Rightarrow> Match list" where
  "hyphens k [] = []"
| "hyphens k (c # cs) =
     (if c = CHR ''-'' then \<lparr>match_start = k, match_end = k + 1\<rparr> # hyphens (k + 1) cs
      else hyphens (k + 1) cs)"

definition example_tokenizer :: Tokenizer where
  "example_tokenizer =
     \<lparr>prefix_search = Some open_paren, suffix_search = Some close_paren,
      infix_finditer = Some (hyphens 0),
      special_cases = [''cannot'' \<mapsto> [''can'', ''not''], ''(-)'' \<mapsto> [''(-)'']]\<rparr>"

text \<open>An exception table whose entry for \<^verbatim>\<open>"ab"\<close> declares one sub-token of length 1.\<close>

definition mismatch_tokenizer :: Tokenizer where
  "mismatch_tokenizer = no_rules\<lparr>special_cases := [''ab'' \<mapsto> [''a'']]\<rparr>"

text \<open>An exception table whose entry for \<^verbatim>\<open>"ab"\<close> declares no sub-token.\<close>

definition empty_entry_tokenizer :: Tokenizer where
  "empty_entry_tokenizer = no_rules\<lparr>special_cases := [''ab'' \<mapsto> []]\<rparr>"

text \<open>An infix matcher in the manner of \<^verbatim>\<open>(?<=^..)\<close>: one zero-length match after the
  second character.\<close>

definition after_two :: "string \<Rightarrow> Match list" where
  "after_two s = (if 2 \<le> length s then [\<lparr>match_start = 2, match_end = 2\<rparr>] else [])"

definition zero_width_tokenizer :: Tokenizer where
  "zero_width_tokenizer = no_rules\<lparr>infix_finditer := Some after_two\<rparr>"

text \<open>The matches of an infix matcher without the zero-length ones.\<close>

definition drop_empty_infix :: "(string \<Rightarrow> Match list) \<Rightarrow> string \<Rightarrow> Match list" where
  "drop_empty_infix finditer s =
     filter (\<lambda>m. match_end m - match_start m \<noteq> 0) (finditer s)"

section \<open>Claim C3: the driver on the empty text\<close>

text \<open>
  Claim C3 (an empty document yields zero spans and the call completes normally) does not
  hold of the code: \<^verbatim>\<open>is_space = text[0].isspace()\<close> is evaluated before the loop, and
  on the empty string it raises \<^verbatim>\<open>IndexError\<close>, whatever the configuration.
\<close>

theorem call_empty_text_raises: "call self [] = Some (Inl IndexError)"
  by (simp add: call_def)

section \<open>Python slices on bounds inside the sequence\<close>

lemma slice_bound_inside: "0 \<le> b \<Longrightarrow> b \<le> int n \<Longrightarrow> slice_bound b n = nat b"
  by (simp add: slice_bound_def)

lemma py_slice_inside:
  "0 \<le> a \<Longrightarrow> a \<le> b \<Longrightarrow> b \<le> int (length s) \<Longrightarrow>
   py_slice s a b = take (nat b - nat a) (drop (nat a) s)"
  by (simp add: py_slice_def slice_bound_inside Let_def)

lemma length_py_slice:
  "0 \<le> a \<Longrightarrow> a \<le> b \<Longrightarrow> b \<le> int (length s) \<Longrightarrow> int (length (py_slice s a b)) = b - a"
  by (simp add: py_slice_inside)

lemma py_slice_from_inside:
  "0 \<le> a \<Longrightarrow> a \<le> int (length s) \<Longrightarrow> py_slice_from s a = drop (nat a) s"
  by (simp add: py_slice_from_def slice_bound_inside)

lemma length_py_slice_from:
  "0 \<le> a \<Longrightarrow> a \<le> int (length s) \<Longrightarrow> int (length (py_slice_from s a)) = int (length s) - a"
  by (simp add: py_slice_from_inside)

lemma py_slice_to_neg:
  "0 < k \<Longrightarrow> k \<le> int (length s) \<Longrightarrow> py_slice_to s (- k) = take (length s - nat k) s"
  by (simp add: py_slice_to_def slice_bound_def nat_diff_distrib')

lemma length_py_slice_to_neg:
  "0 < k \<Longrightarrow> k \<le> int (length s) \<Longrightarrow> int (length (py_slice_to s (- k))) = int (length s) - k"
  by (simp add: py_slice_to_neg)

lemma py_slice_append:
  assumes "0 \<le> a" "a \<le> b" "b \<le> c" "c \<le> int (length s)"
  shows "py_slice s a b @ py_slice s b c = py_slice s a c"
proof -
  have "take (nat b - nat a) (drop (nat a) s) @ take (nat c - nat b) (drop (nat b) s)
        = take (nat c - nat a) (drop (nat a) s)"
  proof -
    have "nat b = nat a + (nat b - nat a)" using assms by simp
    then have d: "drop (nat b) s = drop (nat b - nat a) (drop (nat a) s)"
      by (metis add.commute drop_drop)
    have "nat c - nat a = (nat b - nat a) + (nat c - nat b)" using assms by simp
    then show ?thesis
      by (simp only: d take_add)
  qed
  then show ?thesis using assms by (simp add: py_slice_inside)
qed

section \<open>Chains of spans\<close>

lemma chain_le: "chain a ts b \<Longrightarrow> a \<le> b"
proof (induction ts arbitrary: a)
  case Nil
  then show ?case by simp
next
  case (Cons t ts)
  then obtain e where e: "end_pos t = Some e" "a \<le> e + 1" "chain (e + 1) ts b"
    by (auto split: option.splits)
  from Cons.IH [OF e(3)] e(2) show ?case by simp
qed

lemma chain_append: "chain a (xs @ ys) c \<longleftrightarrow> (\<exists>b. chain a xs b \<and> chain b ys c)"
  by (induction xs arbitrary: a) (auto split: option.splits)

lemma chain_single:
  "a \<le> e + 1 \<Longrightarrow>
   chain a [\<lparr>start_pos = a, end_pos = Some e, space_after = False, is_space = False\<rparr>] (e + 1)"
  by simp

lemma chain_snoc:
  "chain a xs b \<Longrightarrow> b \<le> e + 1 \<Longrightarrow>
   chain a (xs @ [\<lparr>start_pos = b, end_pos = Some e, space_after = False, is_space = False\<rparr>]) (e + 1)"
  by (auto simp: chain_append)

lemma chain_nonempty: "chain a ts b \<Longrightarrow> a < b \<Longrightarrow> ts \<noteq> []"
  by auto

section \<open>Well-formed prefix and suffix matchers\<close>

lemma find_prefix_bounds:
  "wf_search (prefix_search self) \<Longrightarrow> 0 \<le> find_prefix self s \<and> find_prefix self s \<le> int (length s)"
  by (fastforce simp: wf_search_def find_prefix_def match_within_def split: option.splits)

lemma find_suffix_bounds:
  "wf_search (suffix_search self) \<Longrightarrow> 0 \<le> find_suffix self s \<and> find_suffix self s \<le> int (length s)"
  by (fastforce simp: wf_search_def find_suffix_def match_within_def split: option.splits)

lemma get_prefix_token_meta_strip:
  assumes "0 < find_prefix self s" "find_prefix self s \<le> int (length s)"
  shows "get_prefix_token_meta self s pos =
           (Some \<lparr>start_pos = pos, end_pos = Some (pos + find_prefix self s - 1),
                   space_after = False, is_space = False\<rparr>,
            drop (nat (find_prefix self s)) s, pos + find_prefix self s)"
  using assms by (simp add: get_prefix_token_meta_def Let_def py_slice_from_inside)

lemma get_suffix_token_meta_strip:
  assumes "0 < find_suffix self s" "find_suffix self s \<le> int (length s)"
  shows "get_suffix_token_meta self s pos =
           (Some \<lparr>start_pos = pos + int (length s) - find_suffix self s,
                   end_pos = Some (pos + int (length s) - 1),
                   space_after = False, is_space = False\<rparr>,
            take (length s - nat (find_suffix self s)) s)"
  using assms by (simp add: get_suffix_token_meta_def Let_def py_slice_to_neg)

section \<open>The affix-stripping loop\<close>

lemma affix_body_step:
  assumes wf: "wf_search (prefix_search self)" "wf_search (suffix_search self)"
    and cond: "find_prefix self (fst st) \<noteq> 0 \<or> find_suffix self (fst st) \<noteq> 0"
    and inv: "affix_inv a b st"
  shows "case affix_body self st of
           Break st' \<Rightarrow> affix_inv a b st' \<and> special_cases self (fst st') \<noteq> None
         | Continue st' \<Rightarrow> affix_inv a b st' \<and> length (fst st') < length (fst st)"
proof -
  obtain s pos pre suf where st: "st = (s, pos, pre, suf)" by (cases st) auto
  from inv st have c1: "chain a pre pos" and c2: "chain (pos + int (length s)) (rev suf) b"
    by (auto simp: affix_inv_def)
  note pb = find_prefix_bounds [OF wf(1)] 
  note sb = find_suffix_bounds [OF wf(2)]
  show ?thesis
  proof (cases "special_cases self s \<noteq> None")
    case True
    then show ?thesis using inv st by (simp add: affix_body_def)
  next
    case nokey: False
    show ?thesis
    proof (cases "find_prefix self s = 0")
      case p0: True
      with cond st have s1: "find_suffix self s \<noteq> 0" by simp
      with sb [of s] have s2: "0 < find_suffix self s" "find_suffix self s \<le> int (length s)"
        by auto
      have "chain (pos + int (length s) - find_suffix self s)
              [\<lparr>start_pos = pos + int (length s) - find_suffix self s,
                end_pos = Some (pos + int (length s) - 1),
                space_after = False, is_space = False\<rparr>] (pos + int (length s))"
        using s2 by simp
      with c2 have "chain (pos + int (length s) - find_suffix self s)
              (\<lparr>start_pos = pos + int (length s) - find_suffix self s,
                end_pos = Some (pos + int (length s) - 1),
                space_after = False, is_space = False\<rparr> # rev suf) b"
        using s2 by simp
      then show ?thesis
        using nokey p0 s1 s2 c1 st
        by (simp add: affix_body_def get_suffix_token_meta_strip affix_inv_def
                      nat_diff_distrib')
    next
      case p1: False
      with pb [of s] have p2: "0 < find_prefix self s" "find_prefix self s \<le> int (length s)"
        by auto
      define s1 where "s1 = drop (nat (find_prefix self s)) s"
      define pos1 where "pos1 = pos + find_prefix self s"
      define pre1 where "pre1 = pre @ [\<lparr>start_pos = pos, end_pos = Some (pos + find_prefix self s - 1),
                   space_after = False, is_space = False\<rparr>]"
      have gp: "get_prefix_token_meta self s pos =
           (Some \<lparr>start_pos = pos, end_pos = Some (pos + find_prefix self s - 1),
                   space_after = False, is_space = False\<rparr>, s1, pos1)"
        using get_prefix_token_meta_strip [OF p2] by (simp add: s1_def pos1_def)
      have len1: "int (length s1) = int (length s) - find_prefix self s"
        using p2 by (simp add: s1_def)
      have c1': "chain a pre1 pos1"
        using chain_snoc [OF c1, of "pos + find_prefix self s - 1"] p2
        by (simp add: pre1_def pos1_def)
      have c2': "chain (pos1 + int (length s1)) (rev suf) b"
        using c2 len1 by (simp add: pos1_def)
      have short: "length s1 < length s" using len1 p2 by linarith
      show ?thesis
      proof (cases "special_cases self s1 \<noteq> None")
        case True
        then show ?thesis
          using nokey p1 gp c1' c2' st
          by (simp add: affix_body_def affix_inv_def pre1_def)
      next
        case nokey1: False
        show ?thesis
        proof (cases "find_suffix self s1 = 0")
          case True
          then show ?thesis
            using nokey nokey1 p1 gp c1' c2' st short
            by (simp add: affix_body_def affix_inv_def pre1_def)
        next
          case False
          with sb [of s1] have s2: "0 < find_suffix self s1" "find_suffix self s1 \<le> int (length s1)"
            by auto
          have "chain (pos1 + int (length s1) - find_suffix self s1)
              (\<lparr>start_pos = pos1 + int (length s1) - find_suffix self s1,
                end_pos = Some (pos1 + int (length s1) - 1),
                space_after = False, is_space = False\<rparr> # rev suf) b"
            using s2 c2' by simp
          then show ?thesis
            using nokey nokey1 p1 gp c1' s2 st short False
            by (simp add: affix_body_def affix_inv_def pre1_def get_suffix_token_meta_strip
                      nat_diff_distrib')
        qed
      qed
    qed
  qed
qed

lemma affix_loop_total:
  assumes wf: "wf_search (prefix_search self)" "wf_search (suffix_search self)"
    and inv: "affix_inv a b st"
  shows "\<exists>st'. affix_loop self st = Some st' \<and> affix_inv a b st' \<and>
           (special_cases self (fst st') \<noteq> None \<or>
            (find_prefix self (fst st') = 0 \<and> find_suffix self (fst st') = 0))"
  using inv
proof (induction "length (fst st)" arbitrary: st rule: less_induct)
  case less
  show ?case
  proof (cases "find_prefix self (fst st) \<noteq> 0 \<or> find_suffix self (fst st) \<noteq> 0")
    case False
    then show ?thesis using less.prems by (subst affix_loop.simps) simp
  next
    case True
    note step = affix_body_step [OF wf True less.prems]
    show ?thesis
    proof (cases "affix_body self st")
      case (Break st')
      with step True show ?thesis by (subst affix_loop.simps) simp
    next
      case (Continue st')
      with step have "length (fst st') < length (fst st)" "affix_inv a b st'" by simp_all
      from less.hyps [OF this] True Continue show ?thesis
        by (subst affix_loop.simps) simp
    qed
  qed
qed

section \<open>Exception-table spans\<close>

lemma chain_special_cases_loop:
  "chain pos (special_cases_loop entry pos) (pos + int (sum_list (map length entry)))"
proof (induction entry arbitrary: pos)
  case Nil
  then show ?case by simp
next
  case (Cons ORTH es)
  from Cons.IH [of "pos + int (length ORTH) - 1 + 1"] show ?case
    by (simp add: Let_def algebra_simps)
qed

section \<open>Infix spans\<close>

lemma py_slice_nonempty:
  "0 \<le> a \<Longrightarrow> a \<le> b \<Longrightarrow> b \<le> int (length s) \<Longrightarrow> (py_slice s a b \<noteq> []) = (a < b)"
  using length_py_slice [of a b s] by (cases "py_slice s a b") auto

lemma infix_step_inv:
  assumes inv: "infix_inv s p0 (offset, e, pos, metas)"
    and m: "offset \<le> match_start m" "match_start m \<le> match_end m"
           "match_end m \<le> int (length s)"
  shows "infix_inv s p0 (infix_step s (offset, e, pos, metas) m)
         \<and> fst (infix_step s (offset, e, pos, metas) m) = match_end m"
proof -
  from inv have o: "0 \<le> offset" "offset \<le> int (length s)" and p: "pos = p0 + offset"
    and c: "chain p0 metas pos" and e: "0 < offset \<longrightarrow> e + 1 = pos"
    by (auto simp: infix_inv_def)
  have ne1: "(py_slice s offset (match_start m) \<noteq> []) = (offset < match_start m)"
    using o m by (intro py_slice_nonempty) auto
  have l1: "int (length (py_slice s offset (match_start m))) = match_start m - offset"
    using o m by (intro length_py_slice) auto
  have ne2: "(py_slice s (match_start m) (match_end m) \<noteq> []) = (match_start m < match_end m)"
    using o m by (intro py_slice_nonempty) auto
  have l2: "int (length (py_slice s (match_start m) (match_end m))) = match_end m - match_start m"
    using o m by (intro length_py_slice) auto
  let ?gap = "\<lparr>start_pos = pos, end_pos = Some (pos + (match_start m - offset) - 1),
                 space_after = False, is_space = False\<rparr>"
  show ?thesis
  proof (cases "offset < match_start m")
    case gap: True
    have c1: "chain p0 (metas @ [?gap]) (p0 + match_start m)"
      using chain_snoc [OF c, of "pos + (match_start m - offset) - 1"] gap p by simp
    show ?thesis
    proof (cases "match_start m < match_end m")
      case True
      let ?inf = "\<lparr>start_pos = pos + (match_start m - offset) - 1 + 1,
                    end_pos = Some (pos + (match_start m - offset) - 1 + 1
                                    + (match_end m - match_start m) - 1),
                    space_after = False, is_space = False\<rparr>"
      have step: "infix_step s (offset, e, pos, metas) m =
          (match_end m,
           pos + (match_start m - offset) - 1 + 1 + (match_end m - match_start m) - 1,
           pos + (match_start m - offset) - 1 + 1 + (match_end m - match_start m) - 1 + 1,
           (metas @ [?gap]) @ [?inf])"
        by (simp add: infix_step_def ne1 l1 ne2 l2 gap True Let_def)
      have "chain p0 ((metas @ [?gap]) @ [?inf]) (p0 + match_end m)"
        using chain_snoc [OF c1, of "p0 + match_end m - 1"] True p by (simp add: algebra_simps)
      then show ?thesis
        unfolding step using o m p by (simp add: infix_inv_def algebra_simps)
    next
      case False
      have step: "infix_step s (offset, e, pos, metas) m =
          (match_end m, pos + (match_start m - offset) - 1,
           pos + (match_start m - offset) - 1 + 1, metas @ [?gap])"
        by (simp add: infix_step_def ne1 l1 ne2 l2 gap False Let_def)
      from False m have eq: "match_start m = match_end m" by simp
      show ?thesis
        unfolding step using c1 o m p eq by (simp add: infix_inv_def algebra_simps)
    qed
  next
    case nogap: False
    with m have eq0: "match_start m = offset" by simp
    show ?thesis
    proof (cases "match_start m < match_end m")
      case True
      let ?inf = "\<lparr>start_pos = pos, end_pos = Some (pos + (match_end m - match_start m) - 1),
                    space_after = False, is_space = False\<rparr>"
      have step: "infix_step s (offset, e, pos, metas) m =
          (match_end m, pos + (match_end m - match_start m) - 1,
           pos + (match_end m - match_start m) - 1 + 1, metas @ [?inf])"
        by (simp add: infix_step_def ne1 l1 ne2 l2 nogap True Let_def)
      have "chain p0 (metas @ [?inf]) (p0 + match_end m)"
        using chain_snoc [OF c, of "pos + (match_end m - match_start m) - 1"] True eq0 p
        by (simp add: algebra_simps)
      then show ?thesis
        unfolding step using o m p eq0 by (simp add: infix_inv_def algebra_simps)
    next
      case False
      have step: "infix_step s (offset, e, pos, metas) m = (match_end m, e, pos, metas)"
        by (simp add: infix_step_def ne1 l1 ne2 l2 nogap False Let_def)
      from False m have eq: "match_start m = match_end m" by simp
      show ?thesis
        unfolding step using c e o p eq eq0 by (simp add: infix_inv_def)
    qed
  qed
qed

lemma infix_loop_inv:
  assumes "ordered_matches s offset ms" "infix_inv s p0 (offset, e, pos, metas)"
  shows "infix_inv s p0 (foldl (infix_step s) (offset, e, pos, metas) ms)
         \<and> fst (foldl (infix_step s) (offset, e, pos, metas) ms)
             = (if ms = [] then offset else match_end (last ms))"
  using assms
proof (induction ms arbitrary: offset e pos metas)
  case Nil
  then show ?case by simp
next
  case (Cons m ms)
  obtain o1 e1 p1 ms1 where st: "infix_step s (offset, e, pos, metas) m = (o1, e1, p1, ms1)"
    by (cases "infix_step s (offset, e, pos, metas) m") auto
  from Cons.prems have m: "offset \<le> match_start m" "match_start m \<le> match_end m"
           "match_end m \<le> int (length s)" and rest: "ordered_matches s (match_end m) ms"
    by auto
  from infix_step_inv [OF Cons.prems(2) m] st
  have i1: "infix_inv s p0 (o1, e1, p1, ms1)" and o1: "o1 = match_end m" by auto
  from Cons.IH [OF rest [folded o1] i1] st o1 show ?case by simp
qed

lemma chain_get_infix_token_meta:
  assumes ord: "ordered_matches s 0 (find_infix self s)"
    and ne: "find_infix self s \<noteq> []"
    and pos: "0 < match_end (last (find_infix self s))"
  shows "chain p0 (get_infix_token_meta self s p0) (p0 + int (length s))"
proof -
  obtain offset e pos metas where
    st: "foldl (infix_step s) (0, 0, p0, []) (find_infix self s) = (offset, e, pos, metas)"
    by (cases "foldl (infix_step s) (0, 0, p0, []) (find_infix self s)") auto
  have "infix_inv s p0 (0, 0, p0, [])" by (simp add: infix_inv_def)
  from infix_loop_inv [OF ord this] st ne
  have inv: "infix_inv s p0 (offset, e, pos, metas)" and off: "offset = match_end (last (find_infix self s))"
    by auto
  from inv pos off have o: "0 < offset" "offset \<le> int (length s)" and p: "pos = p0 + offset"
    and c: "chain p0 metas pos" and e: "e + 1 = pos"
    by (auto simp: infix_inv_def)
  have l: "int (length (py_slice_from s offset)) = int (length s) - offset"
    using o by (intro length_py_slice_from) auto
  show ?thesis
  proof (cases "py_slice_from s offset = []")
    case True
    with l have "offset = int (length s)" by simp
    with c p True st show ?thesis by (simp add: get_infix_token_meta_def)
  next
    case False
    with l have lt: "offset < int (length s)" by (cases "py_slice_from s offset") auto
    from chain_snoc [OF c, of "pos + (int (length s) - offset) - 1"] lt p
    have "chain p0 (metas @ [\<lparr>start_pos = pos, end_pos = Some (pos + (int (length s) - offset) - 1),
                 space_after = False, is_space = False\<rparr>]) (p0 + int (length s))"
      by (simp add: algebra_simps)
    moreover have "get_infix_token_meta self s p0 =
        metas @ [\<lparr>start_pos = pos, end_pos = Some (pos + (int (length s) - offset) - 1),
                 space_after = False, is_space = False\<rparr>]"
      using False st l e by (simp add: get_infix_token_meta_def Let_def)
    ultimately show ?thesis by simp
  qed
qed

section \<open>The spans of one run\<close>

lemma run_tokens_eq:
  "run_tokens substring start prefixes suffixes infixes special_tokens =
     prefixes @ special_tokens
     @ (if substring \<noteq> [] then
          [\<lparr>start_pos = start, end_pos = Some (start + int (length substring) - 1),
            space_after = False, is_space = False\<rparr>]
        else [])
     @ infixes @ rev suffixes"
  by (simp add: run_tokens_def)

lemma split_affixes_chain:
  assumes wf: "wf_tokenizer self"
  shows "\<exists>s1 p1 pre suf inf spec.
           split_affixes self s pos = Some (s1, p1, pre, suf, inf, spec)
           \<and> chain pos (run_tokens s1 p1 pre suf inf spec) (pos + int (length s))"
proof (cases "s = []")
  case True
  then show ?thesis by (simp add: split_affixes_def run_tokens_eq)
next
  case False
  from wf have wfp: "wf_search (prefix_search self)" and wfs: "wf_search (suffix_search self)"
    and wfi: "wf_finditer (infix_finditer self)" and wfe: "wf_special_cases (special_cases self)"
    by (simp_all add: wf_tokenizer_def)
  have "affix_inv pos (pos + int (length s)) (s, pos, [], [])"
    by (simp add: affix_inv_def)
  from affix_loop_total [OF wfp wfs this]
  obtain s1 p1 pre suf where loop: "affix_loop self (s, pos, [], []) = Some (s1, p1, pre, suf)"
    and c1: "chain pos pre p1" and c2: "chain (p1 + int (length s1)) (rev suf) (pos + int (length s))"
    by (auto simp: affix_inv_def)
  show ?thesis
  proof (cases "special_cases self s1")
    case (Some entry)
    with wfe have "sum_list (map length entry) = length s1"
      by (simp add: wf_special_cases_def)
    with chain_special_cases_loop [of p1 entry]
    have "chain p1 (get_special_cases_token_meta entry p1) (p1 + int (length s1))"
      by (simp add: get_special_cases_token_meta_def)
    with c1 c2 have "chain pos (pre @ get_special_cases_token_meta entry p1 @ rev suf)
                       (pos + int (length s))"
      by (auto simp: chain_append)
    with False loop Some show ?thesis
      by (simp add: split_affixes_def run_tokens_eq)
  next
    case None
    show ?thesis
    proof (cases "find_infix self s1 = []")
      case noinf: True
      show ?thesis
      proof (cases "s1 = []")
        case True
        with c1 c2 have "chain pos (pre @ rev suf) (pos + int (length s))"
          by (auto simp: chain_append)
        with False loop None noinf True show ?thesis
          by (simp add: split_affixes_def run_tokens_eq)
      next
        case ne: False
        have "chain p1 [\<lparr>start_pos = p1, end_pos = Some (p1 + int (length s1) - 1),
            space_after = False, is_space = False\<rparr>] (p1 + int (length s1))"
          by simp
        with c1 c2 have "chain pos (pre @ [\<lparr>start_pos = p1, end_pos = Some (p1 + int (length s1) - 1),
            space_after = False, is_space = False\<rparr>] @ rev suf) (pos + int (length s))"
          unfolding chain_append by blast
        with False loop None noinf ne show ?thesis
          by (simp add: split_affixes_def run_tokens_eq)
      qed
    next
      case inf: False
      from wfi have "ordered_matches s1 0 (find_infix self s1)
        \<and> (find_infix self s1 \<noteq> [] \<longrightarrow> 0 < match_end (last (find_infix self s1)))"
        by (auto simp: wf_finditer_def find_infix_def split: option.splits)
      with inf have "chain p1 (get_infix_token_meta self s1 p1) (p1 + int (length s1))"
        by (intro chain_get_infix_token_meta) auto
      with c1 c2 have "chain pos (pre @ get_infix_token_meta self s1 p1 @ rev suf)
                       (pos + int (length s))"
        unfolding chain_append by blast
      with False loop None inf show ?thesis
        by (simp add: split_affixes_def run_tokens_eq)
    qed
  qed
qed

text \<open>The spans a run contributes: the value of \<^verbatim>\<open>_split_affixes\<close> as \<^verbatim>\<open>_attach_tokens\<close>
  lists it.\<close>

lemma tokenize_chain:
  assumes wf: "wf_tokenizer self" and ne: "s \<noteq> []"
  shows "\<exists>rt. rt \<noteq> [] \<and> chain (start_pos tm) rt (start_pos tm + int (length s))
           \<and> tokenize self s tm doc =
               Some (Inr (doc\<lparr>container := container doc @ butlast rt
                                 @ [(last rt)\<lparr>space_after := space_after tm\<rparr>]\<rparr>))"
proof -
  from split_affixes_chain [OF wf, of s "start_pos tm"]
  obtain s1 p1 pre suf inf spec where
    sp: "split_affixes self s (start_pos tm) = Some (s1, p1, pre, suf, inf, spec)"
    and c: "chain (start_pos tm) (run_tokens s1 p1 pre suf inf spec) (start_pos tm + int (length s))"
    by blast
  let ?rt = "run_tokens s1 p1 pre suf inf spec"
  from ne have "start_pos tm < start_pos tm + int (length s)" by simp
  with c have rt: "?rt \<noteq> []" by (rule chain_nonempty)
  then have "attach_tokens doc s1 p1 (space_after tm) pre suf inf spec =
      Inr (doc\<lparr>container := container doc @ butlast ?rt
                                 @ [(last ?rt)\<lparr>space_after := space_after tm\<rparr>]\<rparr>)"
    by (simp add: attach_tokens_def Let_def butlast_append)
  with sp c rt show ?thesis by (auto simp: tokenize_def)
qed

section \<open>Contiguity up to the skipped whitespace characters\<close>

lemma contig_le: "contig D a ts b \<Longrightarrow> a \<le> b"
proof (induction ts arbitrary: a)
  case Nil
  then show ?case by simp
next
  case (Cons t ts)
  then have "a \<le> effective_end D t + 1" "contig D (effective_end D t + 1 + skipped t) ts b"
    by simp_all
  from Cons.IH [OF this(2)] this(1) show ?case by (simp add: skipped_def split: if_splits)
qed

lemma contig_append:
  "contig D a (xs @ ys) c \<longleftrightarrow> (\<exists>b. contig D a xs b \<and> contig D b ys c)"
  by (induction xs arbitrary: a) auto

lemma chain_contig: "chain a ts b \<Longrightarrow> contig D a ts b"
proof (induction ts arbitrary: a)
  case Nil
  then show ?case by simp
next
  case (Cons t ts)
  then obtain e where e: "end_pos t = Some e" "a \<le> e + 1" "chain (e + 1) ts b"
    and t: "start_pos t = a" "\<not> space_after t"
    by (auto split: option.splits)
  from Cons.IH [OF e(3)] e t show ?case by (simp add: effective_end_def skipped_def)
qed

text \<open>The spans of a run after the fix-up of the last one.\<close>

lemma contig_fixup:
  assumes c: "chain a rt b" and ne: "rt \<noteq> []"
  shows "contig D a (butlast rt @ [(last rt)\<lparr>space_after := sa\<rparr>]) (b + (if sa then 1 else 0))"
proof -
  from ne obtain xs t where rt: "rt = xs @ [t]" by (cases rt rule: rev_cases) auto
  with c obtain m where m: "chain a xs m" and l: "chain m [t] b"
    by (auto simp: chain_append)
  from l obtain e where e: "end_pos t = Some e" "m \<le> e + 1" "b = e + 1"
    and t: "start_pos t = m" "\<not> is_space t"
    by (auto split: option.splits)
  have "contig D m [t\<lparr>space_after := sa\<rparr>] (b + (if sa then 1 else 0))"
    using e t by (simp add: effective_end_def skipped_def)
  with chain_contig [OF m, of D] show ?thesis
    unfolding rt by (auto simp: contig_append)
qed

lemma contig_snoc:
  assumes "contig D a ts b" and "start_pos t = b" and "b \<le> effective_end D t + 1"
  shows "contig D a (ts @ [t]) (effective_end D t + 1 + skipped t)"
  using assms by (auto simp: contig_append)

section \<open>The driver's loop\<close>

lemma chain_not_space: "chain a ts b \<Longrightarrow> t \<in> set ts \<Longrightarrow> \<not> is_space t"
proof (induction ts arbitrary: a)
  case Nil
  then show ?case by simp
next
  case (Cons u us)
  then obtain e where "end_pos u = Some e" "chain (e + 1) us b" and u: "\<not> is_space u"
    by (auto split: option.splits)
  with Cons.IH [of "e + 1"] Cons.prems(2) show ?case by auto
qed

lemma fixup_not_space:
  assumes "chain a rt b" and "rt \<noteq> []"
    and "t \<in> set (butlast rt @ [(last rt)\<lparr>space_after := sa\<rparr>])"
  shows "\<not> is_space t"
proof (cases "t \<in> set (butlast rt)")
  case True
  then have "t \<in> set rt" by (rule in_set_butlastD)
  with assms(1) show ?thesis by (rule chain_not_space)
next
  case False
  with assms(3) have t: "t = (last rt)\<lparr>space_after := sa\<rparr>" by simp
  from assms(2) have "last rt \<in> set rt" by simp
  with assms(1) have "\<not> is_space (last rt)" by (rule chain_not_space)
  with t show ?thesis by simp
qed

text \<open>A run attached to the document.\<close>

lemma spans_ok_run:
  assumes so: "spans_ok D ts (int pos)" and c: "chain (int pos) rt b" and ne: "rt \<noteq> []"
  shows "spans_ok D (ts @ butlast rt @ [(last rt)\<lparr>space_after := sa\<rparr>])
           (b + (if sa then 1 else 0))"
proof -
  from so have c0: "contig D 0 ts (int pos)"
    and w: "\<forall>t \<in> set ts. is_space t \<and> end_pos t \<noteq> None \<longrightarrow> \<not> space_after t"
    by (simp_all add: spans_ok_def)
  from contig_fixup [OF c ne, of D sa] c0
  have "contig D 0 (ts @ butlast rt @ [(last rt)\<lparr>space_after := sa\<rparr>])
           (b + (if sa then 1 else 0))"
    unfolding contig_append by blast
  moreover have "\<not> is_space t" if "t \<in> set (butlast rt @ [(last rt)\<lparr>space_after := sa\<rparr>])" for t
    using fixup_not_space [OF c ne that] .
  ultimately show ?thesis using w unfolding spans_ok_def
    by (metis Un_iff set_append)
qed

text \<open>A whitespace-run span appended to the document.\<close>

lemma spans_ok_whitespace:
  assumes so: "spans_ok D ts (int pos)" and t: "start_pos t = int pos" "is_space t"
    and le: "int pos \<le> effective_end D t + 1"
    and fl: "end_pos t \<noteq> None \<longrightarrow> \<not> space_after t"
  shows "spans_ok D (ts @ [t]) (effective_end D t + 1)"
proof -
  from so have c0: "contig D 0 ts (int pos)"
    and w: "\<forall>t \<in> set ts. is_space t \<and> end_pos t \<noteq> None \<longrightarrow> \<not> space_after t"
    by (simp_all add: spans_ok_def)
  from t(2) have "skipped t = 0" by (simp add: skipped_def)
  with contig_snoc [OF c0 t(1) le] have "contig D 0 (ts @ [t]) (effective_end D t + 1)"
    by simp
  with w fl show ?thesis by (auto simp: spans_ok_def)
qed

lemma close_phase:
  assumes wf: "wf_tokenizer self" and inv: "call_inv D i st" and i: "i < length D"
  shows "\<exists>st1. (if isspace (D ! i) \<noteq> fst (snd st)
                then close_run self D i (isspace (D ! i)) st else Some (Inr st)) = Some (Inr st1)
               \<and> call_inv D (Suc i) st1"
proof -
  obtain pos is_sp doc where st: "st = (pos, is_sp, doc)" by (cases st) auto
  from inv st have le: "pos \<le> i" and so: "spans_ok D (container doc) (int pos)"
    and run: "\<forall>k. pos \<le> k \<and> k < i \<longrightarrow> isspace (D ! k) = is_sp"
    and cls: "pos < length D \<longrightarrow> isspace (D ! pos) = is_sp"
    by (auto simp: call_inv_def)
  show ?thesis
  proof (cases "isspace (D ! i) = is_sp")
    case True
    have "\<forall>k. pos \<le> k \<and> k < Suc i \<longrightarrow> isspace (D ! k) = is_sp"
      using run True by (auto simp: less_Suc_eq)
    with le so cls i True st show ?thesis by (simp add: call_inv_def)
  next
    case differ: False
    with cls i le have lt: "pos < i" by (cases "pos = i") auto
    show ?thesis
    proof (cases is_sp)
      case True
      with differ have cur: "\<not> isspace (D ! i)" by simp
      let ?tm = "\<lparr>start_pos = int pos, end_pos = Some (int i - 1),
                  space_after = isspace (D ! i), is_space = True\<rparr>"
      have cr: "close_run self D i (isspace (D ! i)) st =
                  Some (Inr (i, isspace (D ! i), doc\<lparr>container := container doc @ [?tm]\<rparr>))"
        using True differ i st by (simp add: close_run_def)
      have e: "effective_end D ?tm = int i - 1"
        by (simp add: effective_end_def)
      have "spans_ok D (container doc @ [?tm]) (effective_end D ?tm + 1)"
        using lt cur by (intro spans_ok_whitespace [OF so]) (simp_all add: effective_end_def)
      then have "spans_ok D (container doc @ [?tm]) (int i)"
        by (simp add: e)
      moreover have "\<And>k. (i \<le> k \<and> k < Suc i) = (k = i)"
        by auto
      ultimately
      have "call_inv D (Suc i) (i, isspace (D ! i), doc\<lparr>container := container doc @ [?tm]\<rparr>)"
        using i by (simp add: call_inv_def)
      with cr differ st show ?thesis by simp
    next
      case False
      with differ have cur: "isspace (D ! i)" by simp
      let ?tm = "\<lparr>start_pos = int pos, end_pos = Some (int i - 1),
                  space_after = isspace (D ! i), is_space = False\<rparr>"
      let ?s = "take (i - pos) (drop pos D)"
      have len: "length ?s = i - pos" using i lt by simp
      with lt have ne: "?s \<noteq> []" by auto
      from tokenize_chain [OF wf ne, of ?tm doc] len lt cur
      obtain rt where rt: "rt \<noteq> []" "chain (int pos) rt (int i)"
        and tk: "tokenize self ?s ?tm doc =
               Some (Inr (doc\<lparr>container := container doc @ butlast rt
                                 @ [(last rt)\<lparr>space_after := True\<rparr>]\<rparr>))"
        by (auto simp: of_nat_diff)
      let ?doc1 = "doc\<lparr>container := container doc @ butlast rt @ [(last rt)\<lparr>space_after := True\<rparr>]\<rparr>"
      let ?sp1 = "if Suc i < length D then isspace (D ! Suc i) else False"
      have cr: "close_run self D i (isspace (D ! i)) st = Some (Inr (Suc i, ?sp1, ?doc1))"
        using False cur st tk by (simp add: close_run_def)
      from spans_ok_run [OF so rt(2) rt(1), of True]
      have "spans_ok D (container ?doc1) (int (Suc i))"
        by (simp add: add.commute)
      then have "call_inv D (Suc i) (Suc i, ?sp1, ?doc1)"
        using i by (auto simp: call_inv_def)
      with cr differ st show ?thesis by simp
    qed
  qed
qed

lemma last_phase:
  assumes wf: "wf_tokenizer self" and inv: "call_inv D (length D) st"
    and lt: "fst st < length D"
  shows "\<exists>st2. last_run self D (isspace (D ! (length D - 1))) st = Some (Inr st2)
               \<and> spans_ok D (container (snd (snd st2))) (int (length D))"
proof -
  obtain pos is_sp doc where st: "st = (pos, is_sp, doc)" by (cases st) auto
  from inv st lt have lt': "pos < length D" and so: "spans_ok D (container doc) (int pos)"
    and run: "\<forall>k. pos \<le> k \<and> k < length D \<longrightarrow> isspace (D ! k) = is_sp"
    by (auto simp: call_inv_def)
  have "pos \<le> length D - 1 \<and> length D - 1 < length D" using lt' by auto
  with run have cur: "isspace (D ! (length D - 1)) = is_sp" by blast
  show ?thesis
  proof (cases is_sp)
    case True
    let ?tm = "\<lparr>start_pos = int pos, end_pos = None, space_after = True, is_space = True\<rparr>"
    have lr: "last_run self D (isspace (D ! (length D - 1))) st =
                Some (Inr (pos, True, doc\<lparr>container := container doc @ [?tm]\<rparr>))"
      using True cur st by (simp add: last_run_def)
    have e: "effective_end D ?tm = int (length D) - 1"
      by (simp add: effective_end_def)
    have "spans_ok D (container doc @ [?tm]) (effective_end D ?tm + 1)"
      using lt' by (intro spans_ok_whitespace [OF so]) (simp_all add: effective_end_def)
    then have "spans_ok D (container doc @ [?tm]) (int (length D))"
      by (simp add: e)
    with lr show ?thesis by simp
  next
    case False
    let ?tm = "\<lparr>start_pos = int pos, end_pos = None, space_after = False, is_space = False\<rparr>"
    have ne: "drop pos D \<noteq> []" using lt' by simp
    from tokenize_chain [OF wf ne, of ?tm doc] lt'
    obtain rt where rt: "rt \<noteq> []" "chain (int pos) rt (int (length D))"
      and tk: "tokenize self (drop pos D) ?tm doc =
               Some (Inr (doc\<lparr>container := container doc @ butlast rt
                                 @ [(last rt)\<lparr>space_after := False\<rparr>]\<rparr>))"
      by (auto simp: of_nat_diff)
    let ?doc1 = "doc\<lparr>container := container doc @ butlast rt @ [(last rt)\<lparr>space_after := False\<rparr>]\<rparr>"
    have lr: "last_run self D (isspace (D ! (length D - 1))) st = Some (Inr (pos, False, ?doc1))"
      using False cur st tk by (simp add: last_run_def)
    from spans_ok_run [OF so rt(2) rt(1), of False]
    have "spans_ok D (container ?doc1) (int (length D))"
      by simp
    with lr show ?thesis by simp
  qed
qed

lemma call_body_inv:
  assumes wf: "wf_tokenizer self" and inv: "call_inv D i st" and i: "i < length D"
  shows "\<exists>st'. call_body self D (i, D ! i) st = Some (Inr st')
               \<and> (if Suc i = length D then spans_ok D (container (snd (snd st'))) (int (length D))
                   else call_inv D (Suc i) st')"
proof -
  from close_phase [OF wf inv i] obtain st1 where
    p1: "(if isspace (D ! i) \<noteq> fst (snd st)
                then close_run self D i (isspace (D ! i)) st else Some (Inr st)) = Some (Inr st1)"
    and inv1: "call_inv D (Suc i) st1" by blast
  show ?thesis
  proof (cases "Suc i = length D")
    case False
    with i have "int i \<noteq> int (length D) - 1" by linarith
    with p1 inv1 False show ?thesis by (simp add: call_body_def Let_def)
  next
    case True
    then have eq: "int i = int (length D) - 1" and eq': "length D - 1 = i" by auto
    show ?thesis
    proof (cases "fst st1 \<le> i")
      case le: True
      with True have "fst st1 < length D" by simp
      from last_phase [OF wf inv1 [unfolded True] this]
      obtain st2 where "last_run self D (isspace (D ! i)) st1 = Some (Inr st2)"
        "spans_ok D (container (snd (snd st2))) (int (length D))"
        unfolding eq' by blast
      with eq p1 le True show ?thesis
        by (simp add: call_body_def Let_def)
    next
      case False
      with inv1 True have "fst st1 = length D" by (cases st1) (auto simp: call_inv_def)
      with inv1 have "spans_ok D (container (snd (snd st1))) (int (length D))"
        by (cases st1) (auto simp: call_inv_def)
      with p1 False True show ?thesis by (simp add: call_body_def Let_def)
    qed
  qed
qed

lemma call_loop_inv:
  assumes wf: "wf_tokenizer self" and inv: "call_inv D i st" and i: "i < length D"
  shows "\<exists>doc. call_loop self D (enumerate i (drop i D)) st = Some (Inr doc)
               \<and> spans_ok D (container doc) (int (length D))"
  using inv i
proof (induction "length D - i" arbitrary: i st)
  case 0
  then show ?case by simp
next
  case (Suc n)
  from Suc.prems have dr: "drop i D = D ! i # drop (Suc i) D"
    by (simp add: Cons_nth_drop_Suc)
  from call_body_inv [OF wf Suc.prems] obtain st' where
    b: "call_body self D (i, D ! i) st = Some (Inr st')"
    and r: "if Suc i = length D then spans_ok D (container (snd (snd st'))) (int (length D))
            else call_inv D (Suc i) st'" by blast
  show ?case
  proof (cases "Suc i = length D")
    case True
    with b r dr show ?thesis by simp
  next
    case False
    with Suc.prems have lt: "Suc i < length D" by simp
    from Suc.hyps(2) have n: "n = length D - Suc i" by simp
    from r False have inv': "call_inv D (Suc i) st'" by simp
    from Suc.hyps(1) [OF n inv' lt]
    obtain doc where "call_loop self D (enumerate (Suc i) (drop (Suc i) D)) st' = Some (Inr doc)"
      "spans_ok D (container doc) (int (length D))" by blast
    with b dr show ?thesis by simp
  qed
qed

lemma call_spans_ok:
  assumes wf: "wf_tokenizer self" and ne: "D \<noteq> []"
  shows "\<exists>doc. call self D = Some (Inr doc) \<and> spans_ok D (container doc) (int (length D))"
proof -
  have "call_inv D 0 (0, isspace (D ! 0), \<lparr>doc_text = D, container = []\<rparr>)"
    using ne by (simp add: call_inv_def spans_ok_def)
  from call_loop_inv [OF wf this] ne show ?thesis by (simp add: call_def)
qed

section \<open>The example configuration is well formed\<close>

lemma ordered_hyphens:
  "offset \<le> k \<Longrightarrow> k + int (length cs) \<le> int (length s) \<Longrightarrow> ordered_matches s offset (hyphens k cs)"
  by (induction cs arbitrary: offset k) auto

lemma hyphens_end_pos: "0 \<le> k \<Longrightarrow> m \<in> set (hyphens k cs) \<Longrightarrow> 0 < match_end m"
proof (induction cs arbitrary: k)
  case Nil
  then show ?case by simp
next
  case (Cons c cs)
  have "0 \<le> k + 1" using Cons.prems(1) by simp
  from Cons.IH [OF this] Cons.prems show ?case
    by (auto split: if_splits)
qed

lemma wf_example_tokenizer: "wf_tokenizer example_tokenizer"
proof -
  have "wf_search (Some open_paren)"
    by (auto simp: wf_search_def open_paren_def match_within_def split: list.splits)
  moreover have "wf_search (Some close_paren)"
    by (auto simp: wf_search_def close_paren_def match_within_def Suc_le_eq)
  moreover have "wf_finditer (Some (hyphens 0))"
  proof -
    have "ordered_matches s 0 (hyphens 0 s)" for s
      by (rule ordered_hyphens) simp_all
    moreover have "0 < match_end (last (hyphens 0 s))" if "hyphens 0 s \<noteq> []" for s
      using hyphens_end_pos [of 0 "last (hyphens 0 s)" s] that by simp
    ultimately show ?thesis by (simp add: wf_finditer_def)
  qed
  moreover have "wf_special_cases [''cannot'' \<mapsto> [''can'', ''not''], ''(-)'' \<mapsto> [''(-)'']]"
    by (auto simp: wf_special_cases_def split: if_splits)
  ultimately show ?thesis by (simp add: wf_tokenizer_def example_tokenizer_def)
qed

section \<open>Contiguity and reconstruction\<close>

lemma contig_first: "contig D a ts b \<Longrightarrow> ts \<noteq> [] \<Longrightarrow> start_pos (ts ! 0) = a"
  by (cases ts) auto

lemma contig_adjacent:
  "contig D a ts b \<Longrightarrow> Suc i < length ts \<Longrightarrow>
   effective_end D (ts ! i) + 1 + skipped (ts ! i) = start_pos (ts ! Suc i)"
proof (induction ts arbitrary: a i)
  case Nil
  then show ?case by simp
next
  case (Cons t ts)
  then have c: "contig D (effective_end D t + 1 + skipped t) ts b" by simp
  show ?case
  proof (cases i)
    case 0
    with Cons.prems(2) have "ts \<noteq> []" by auto
    from contig_first [OF c this] 0 show ?thesis by simp
  next
    case (Suc j)
    with Cons.prems(2) have "Suc j < length ts" by simp
    from Cons.IH [OF c this] Suc show ?thesis by simp
  qed
qed

lemma contig_last:
  "contig D a ts b \<Longrightarrow> ts \<noteq> [] \<Longrightarrow> effective_end D (last ts) + 1 + skipped (last ts) = b"
proof (induction ts arbitrary: a)
  case Nil
  then show ?case by simp
next
  case (Cons t ts)
  then have c: "contig D (effective_end D t + 1 + skipped t) ts b" by simp
  show ?case
  proof (cases "ts = []")
    case True
    with c show ?thesis by simp
  next
    case False
    from Cons.IH [OF c False] False show ?thesis by simp
  qed
qed

lemma skipped_bounds: "0 \<le> skipped t"
  by (simp add: skipped_def)

lemma span_text_with_ws_slice:
  assumes "0 \<le> start_pos t" "start_pos t \<le> effective_end D t + 1"
    and "effective_end D t + 1 + skipped t \<le> int (length D)"
  shows "span_text_with_ws D t = py_slice D (start_pos t) (effective_end D t + 1 + skipped t)"
proof -
  have le: "effective_end D t + 1 \<le> int (length D)"
    using assms(3) skipped_bounds [of t] by linarith
  have "span_text D t = py_slice D (start_pos t) (effective_end D t + 1)"
  proof (cases "end_pos t")
    case None
    then have e: "effective_end D t + 1 = int (length D)" by (simp add: effective_end_def)
    have "py_slice_from D (start_pos t) = py_slice D (start_pos t) (int (length D))"
      using assms(1,2) e by (simp add: py_slice_from_inside py_slice_inside)
    with None e show ?thesis by (simp add: span_text_def)
  next
    case (Some e)
    then show ?thesis by (simp add: span_text_def effective_end_def)
  qed
  moreover have "py_slice D (start_pos t) (effective_end D t + 1)
      @ py_slice D (effective_end D t + 1) (effective_end D t + 1 + skipped t)
      = py_slice D (start_pos t) (effective_end D t + 1 + skipped t)"
    using assms skipped_bounds [of t] by (intro py_slice_append) auto
  ultimately show ?thesis by (simp add: span_text_with_ws_def)
qed

lemma contig_text:
  "contig D a ts b \<Longrightarrow> 0 \<le> a \<Longrightarrow> b \<le> int (length D) \<Longrightarrow>
   concat (map (span_text_with_ws D) ts) = py_slice D a b"
proof (induction ts arbitrary: a)
  case Nil
  then show ?case by (simp add: py_slice_def)
next
  case (Cons t ts)
  let ?n = "effective_end D t + 1 + skipped t"
  from Cons.prems have t: "start_pos t = a" "a \<le> effective_end D t + 1"
    and c: "contig D ?n ts b" by simp_all
  from contig_le [OF c] have nb: "?n \<le> b" .
  have an: "a \<le> ?n" using t(2) skipped_bounds [of t] by linarith
  have "span_text_with_ws D t = py_slice D a ?n"
    using span_text_with_ws_slice [of t D] t Cons.prems(2,3) nb by simp
  moreover have "concat (map (span_text_with_ws D) ts) = py_slice D ?n b"
    using Cons.IH [OF c] an Cons.prems(2,3) by simp
  moreover have "py_slice D a ?n @ py_slice D ?n b = py_slice D a b"
    using an nb Cons.prems(2,3) by (intro py_slice_append) auto
  ultimately show ?case by simp
qed

lemma wf_no_rules: "wf_tokenizer no_rules"
  by (simp add: wf_tokenizer_def no_rules_def wf_search_def wf_finditer_def
                wf_special_cases_def)


section \<open>Claim C4: whitespace runs closed inside the document\<close>

text \<open>
  Claim C4, as stated, asks for \<open>space_after = True\<close> on a whitespace-run span that is
  followed by a non-space character. On \<^verbatim>\<open>"a  b"\<close> the whitespace-run span at position 2
  is emitted with \<open>space_after = False\<close>.
\<close>

theorem whitespace_run_flag_counterexample:
  "call no_rules ''a  b'' = Some (Inr \<lparr>doc_text = ''a  b'', container =
      [\<lparr>start_pos = 0, end_pos = Some 0, space_after = True, is_space = False\<rparr>,
       \<lparr>start_pos = 2, end_pos = Some 2, space_after = False, is_space = True\<rparr>,
       \<lparr>start_pos = 3, end_pos = Some 3, space_after = False, is_space = False\<rparr>]\<rparr>)"
  by code_simp

text \<open>
  Claim C4, amended: for every non-empty document and every well-formed configuration, every
  whitespace-run span of the result that was closed inside the document (its \<open>end_pos\<close> is
  not \<^verbatim>\<open>None\<close>) has \<open>space_after = False\<close>: the flag is the whitespace class of the
  character that follows the run, and that character is not a space.
\<close>

theorem whitespace_run_space_after_unset:
  assumes "wf_tokenizer self" and "D \<noteq> []"
  shows "\<exists>doc. call self D = Some (Inr doc)
           \<and> (\<forall>t \<in> set (container doc).
                  is_space t \<and> end_pos t \<noteq> None \<longrightarrow> \<not> space_after t)"
  using call_spans_ok [OF assms] by (auto simp: spans_ok_def)

theorem whitespace_run_space_after_unset_witness:
  "wf_tokenizer example_tokenizer \<and> ''(a)  b-c   d'' \<noteq> []
   \<and> (\<exists>doc. call example_tokenizer ''(a)  b-c   d'' = Some (Inr doc)
          \<and> (\<forall>t \<in> set (container doc).
                 is_space t \<and> end_pos t \<noteq> None \<longrightarrow> \<not> space_after t))"
  using whitespace_run_space_after_unset [OF wf_example_tokenizer, of "''(a)  b-c   d''"]
        wf_example_tokenizer
  by simp

section \<open>Claim C2: contiguity of the span sequence\<close>

text \<open>
  Claim C2, as stated, asks \<open>s[i].end_pos + 1 = s[i+1].start_pos\<close> for every adjacent
  pair. On \<^verbatim>\<open>"I love"\<close>, without any rule, the driver emits the spans \<open>(0, 0)\<close> and
  \<open>(2, 5)\<close>: the single space at index 1 is no span, it is recorded as
  \<open>space_after = True\<close> on the first span.
\<close>

theorem contiguity_counterexample:
  "wf_tokenizer no_rules
   \<and> call no_rules ''I love'' = Some (Inr \<lparr>doc_text = ''I love'', container =
        [\<lparr>start_pos = 0, end_pos = Some 0, space_after = True, is_space = False\<rparr>,
         \<lparr>start_pos = 2, end_pos = Some 5, space_after = False, is_space = False\<rparr>]\<rparr>)
   \<and> effective_end ''I love''
         \<lparr>start_pos = 0, end_pos = Some 0, space_after = True, is_space = False\<rparr> + 1
       \<noteq> start_pos \<lparr>start_pos = 2, end_pos = Some 5, space_after = False, is_space = False\<rparr>"
proof -
  have "call no_rules ''I love'' = Some (Inr \<lparr>doc_text = ''I love'', container =
        [\<lparr>start_pos = 0, end_pos = Some 0, space_after = True, is_space = False\<rparr>,
         \<lparr>start_pos = 2, end_pos = Some 5, space_after = False, is_space = False\<rparr>]\<rparr>)"
    by code_simp
  then show ?thesis by (simp add: wf_no_rules effective_end_def)
qed

text \<open>
  Claim C2, amended: for every non-empty document \<open>D\<close> and every well-formed
  configuration the call returns a non-empty span sequence \<open>s\<close> with \<open>s[0].start_pos = 0\<close>;
  for every adjacent pair, \<open>s[i].end + 1 + k\<^sub>i = s[i+1].start_pos\<close>, where \<open>k\<^sub>i\<close> is 1
  when \<open>s[i]\<close> is a non-whitespace span with \<open>space_after\<close> set (the one whitespace
  character that closes its run is recorded in the flag and is no span) and 0 otherwise;
  and the effective end of the last span plus its \<open>k\<close> is \<open>len(D) - 1\<close>.
\<close>

theorem contiguity_up_to_skipped_whitespace:
  assumes "wf_tokenizer self" and "D \<noteq> []"
  shows "\<exists>doc. call self D = Some (Inr doc) \<and> container doc \<noteq> []
           \<and> start_pos (container doc ! 0) = 0
           \<and> (\<forall>i. Suc i < length (container doc) \<longrightarrow>
                  effective_end D (container doc ! i) + 1 + skipped (container doc ! i)
                  = start_pos (container doc ! Suc i))
           \<and> effective_end D (last (container doc)) + skipped (last (container doc))
               = int (length D) - 1"
proof -
  from call_spans_ok [OF assms] obtain doc where d: "call self D = Some (Inr doc)"
    and c: "contig D 0 (container doc) (int (length D))" by (auto simp: spans_ok_def)
  from c assms(2) have ne: "container doc \<noteq> []" by (cases "container doc") auto
  from contig_last [OF c ne]
  have "effective_end D (last (container doc)) + skipped (last (container doc))
               = int (length D) - 1" by simp
  with d ne contig_first [OF c ne] contig_adjacent [OF c] show ?thesis by blast
qed

theorem contiguity_up_to_skipped_whitespace_witness:
  "wf_tokenizer example_tokenizer \<and> ''(cannot) go-on  x'' \<noteq> []
   \<and> (\<exists>doc. call example_tokenizer ''(cannot) go-on  x'' = Some (Inr doc)
          \<and> container doc \<noteq> []
          \<and> start_pos (container doc ! 0) = 0
          \<and> (\<forall>i. Suc i < length (container doc) \<longrightarrow>
                 effective_end ''(cannot) go-on  x'' (container doc ! i) + 1
                   + skipped (container doc ! i)
                 = start_pos (container doc ! Suc i))
          \<and> effective_end ''(cannot) go-on  x'' (last (container doc))
                + skipped (last (container doc))
              = int (length ''(cannot) go-on  x'') - 1)"
  using contiguity_up_to_skipped_whitespace [OF wf_example_tokenizer, of "''(cannot) go-on  x''"]
        wf_example_tokenizer
  by simp

section \<open>Claim C1: reconstruction of the document\<close>

text \<open>
  Claim C1, as stated, concatenates the substrings denoted by the start and end positions
  of the spans. On \<^verbatim>\<open>"a b"\<close>, without any rule, the spans are \<open>(0, 0)\<close> and \<open>(2, 2)\<close>
  and their substrings concatenate to \<^verbatim>\<open>"ab"\<close>: the space is lost.
\<close>

theorem reconstruction_counterexample:
  "wf_tokenizer no_rules
   \<and> call no_rules ''a b'' = Some (Inr \<lparr>doc_text = ''a b'', container =
        [\<lparr>start_pos = 0, end_pos = Some 0, space_after = True, is_space = False\<rparr>,
         \<lparr>start_pos = 2, end_pos = Some 2, space_after = False, is_space = False\<rparr>]\<rparr>)
   \<and> concat (map (span_text ''a b'')
        [\<lparr>start_pos = 0, end_pos = Some 0, space_after = True, is_space = False\<rparr>,
         \<lparr>start_pos = 2, end_pos = Some 2, space_after = False, is_space = False\<rparr>]) = ''ab''"
proof -
  have "call no_rules ''a b'' = Some (Inr \<lparr>doc_text = ''a b'', container =
        [\<lparr>start_pos = 0, end_pos = Some 0, space_after = True, is_space = False\<rparr>,
         \<lparr>start_pos = 2, end_pos = Some 2, space_after = False, is_space = False\<rparr>]\<rparr>)"
    by code_simp
  moreover have "concat (map (span_text ''a b'')
        [\<lparr>start_pos = 0, end_pos = Some 0, space_after = True, is_space = False\<rparr>,
         \<lparr>start_pos = 2, end_pos = Some 2, space_after = False, is_space = False\<rparr>]) = ''ab''"
    by code_simp
  ultimately show ?thesis by (simp add: wf_no_rules)
qed

text \<open>
  Claim C1, amended: for every non-empty document \<open>D\<close> and every well-formed
  configuration, concatenating in document order the substring of each span followed, when
  the span is a non-whitespace span with \<open>space_after\<close> set, by the one character of \<open>D\<close>
  after the span, reproduces \<open>D\<close> exactly.
\<close>

theorem reconstruction_with_skipped_whitespace:
  assumes "wf_tokenizer self" and "D \<noteq> []"
  shows "\<exists>doc. call self D = Some (Inr doc)
           \<and> concat (map (span_text_with_ws D) (container doc)) = D"
proof -
  from call_spans_ok [OF assms] obtain doc where d: "call self D = Some (Inr doc)"
    and c: "contig D 0 (container doc) (int (length D))" by (auto simp: spans_ok_def)
  from contig_text [OF c] have "concat (map (span_text_with_ws D) (container doc)) = D"
    by (simp add: py_slice_def slice_bound_def)
  with d show ?thesis by blast
qed

theorem reconstruction_with_skipped_whitespace_witness:
  "wf_tokenizer example_tokenizer \<and> ''((a-b--c)) '' \<noteq> []
   \<and> (\<exists>doc. call example_tokenizer ''((a-b--c)) '' = Some (Inr doc)
          \<and> concat (map (span_text_with_ws ''((a-b--c)) '') (container doc)) = ''((a-b--c)) '')"
  using reconstruction_with_skipped_whitespace [OF wf_example_tokenizer, of "''((a-b--c)) ''"]
        wf_example_tokenizer
  by simp

section \<open>Termination of the affix-stripping loop\<close>

lemma affix_body_shrinks:
  assumes wf: "wf_search (prefix_search self)" "wf_search (suffix_search self)"
    and cond: "find_prefix self (fst st) \<noteq> 0 \<or> find_suffix self (fst st) \<noteq> 0"
    and body: "affix_body self st = Continue st'"
  shows "length (fst st') < length (fst st)"
proof -
  obtain s pos pre suf where st: "st = (s, pos, pre, suf)" by (cases st) auto
  note pb = find_prefix_bounds [OF wf(1)]
  note sb = find_suffix_bounds [OF wf(2)]
  from body st have nokey: "special_cases self s = None"
    by (auto simp: affix_body_def split: if_splits)
  show ?thesis
  proof (cases "find_prefix self s = 0")
    case p0: True
    with cond st have "find_suffix self s \<noteq> 0" by simp
    with sb [of s] have s2: "0 < find_suffix self s" "find_suffix self s \<le> int (length s)"
      by auto
    from body st nokey p0 s2 have "st' = (take (length s - nat (find_suffix self s)) s, pos, pre,
        suf @ [\<lparr>start_pos = pos + int (length s) - find_suffix self s,
                   end_pos = Some (pos + int (length s) - 1),
                   space_after = False, is_space = False\<rparr>])"
      by (simp add: affix_body_def get_suffix_token_meta_strip)
    with s2 st show ?thesis by simp
  next
    case p1: False
    with pb [of s] have p2: "0 < find_prefix self s" "find_prefix self s \<le> int (length s)"
      by auto
    define s1 where "s1 = drop (nat (find_prefix self s)) s"
    have gp: "get_prefix_token_meta self s pos =
           (Some \<lparr>start_pos = pos, end_pos = Some (pos + find_prefix self s - 1),
                   space_after = False, is_space = False\<rparr>, s1, pos + find_prefix self s)"
      using get_prefix_token_meta_strip [OF p2] by (simp add: s1_def)
    have short: "length s1 < length s" using p2 by (simp add: s1_def)
    show ?thesis
    proof (cases "find_suffix self s1 = 0")
      case True
      with body st nokey p1 gp have "fst st' = s1"
        by (auto simp: affix_body_def split: if_splits)
      with short st show ?thesis by simp
    next
      case False
      with sb [of s1] have s2: "0 < find_suffix self s1" "find_suffix self s1 \<le> int (length s1)"
        by auto
      from body st nokey p1 gp False have "fst st' = take (length s1 - nat (find_suffix self s1)) s1"
        by (auto simp: affix_body_def get_suffix_token_meta_strip [OF s2] split: if_splits)
      with short st show ?thesis by simp
    qed
  qed
qed

lemma affix_loop_terminates:
  assumes wf: "wf_search (prefix_search self)" "wf_search (suffix_search self)"
  shows "\<exists>st'. affix_loop self st = Some st'"
proof (induction "length (fst st)" arbitrary: st rule: less_induct)
  case less
  show ?case
  proof (cases "find_prefix self (fst st) \<noteq> 0 \<or> find_suffix self (fst st) \<noteq> 0")
    case False
    then have "affix_loop self st = Some st" by (subst affix_loop.simps) simp
    then show ?thesis by blast
  next
    case True
    show ?thesis
    proof (cases "affix_body self st")
      case (Break st')
      with True have "affix_loop self st = Some st'" by (subst affix_loop.simps) simp
      then show ?thesis by blast
    next
      case (Continue st')
      with True have "affix_loop self st = affix_loop self st'"
        by (subst affix_loop.simps) simp
      with less.hyps [OF affix_body_shrinks [OF wf True Continue]]
      show ?thesis by simp
    qed
  qed
qed

lemma split_affixes_terminates:
  assumes wf: "wf_search (prefix_search self)" "wf_search (suffix_search self)"
  shows "\<exists>r. split_affixes self s pos = Some r"
proof -
  from affix_loop_terminates [OF wf, of "(s, pos, [], [])"]
  obtain s1 p1 pre suf where "affix_loop self (s, pos, [], []) = Some (s1, p1, pre, suf)"
    by (metis prod_cases4)
  then show ?thesis
    by (simp add: split_affixes_def split: option.splits)
qed

text \<open>Zero-length matches and missing matches give the same lengths.\<close>

lemma find_prefix_without_empty_matches:
  "find_prefix (without_empty_matches self) = find_prefix self"
  by (intro ext) (simp add: find_prefix_def without_empty_matches_def drop_empty_match_def
           split: option.splits)

lemma find_suffix_without_empty_matches:
  "find_suffix (without_empty_matches self) = find_suffix self"
  by (intro ext) (simp add: find_suffix_def without_empty_matches_def drop_empty_match_def
           split: option.splits)

lemma find_infix_without_empty_matches:
  "find_infix (without_empty_matches self) = find_infix self"
  by (intro ext) (simp add: find_infix_def without_empty_matches_def)

lemma special_cases_without_empty_matches:
  "special_cases (without_empty_matches self) = special_cases self"
  by (simp add: without_empty_matches_def)

lemma get_prefix_token_meta_without_empty_matches:
  "get_prefix_token_meta (without_empty_matches self) = get_prefix_token_meta self"
  by (intro ext) (simp add: get_prefix_token_meta_def find_prefix_without_empty_matches)

lemma get_suffix_token_meta_without_empty_matches:
  "get_suffix_token_meta (without_empty_matches self) = get_suffix_token_meta self"
  by (intro ext) (simp add: get_suffix_token_meta_def find_suffix_without_empty_matches)

lemma get_infix_token_meta_without_empty_matches:
  "get_infix_token_meta (without_empty_matches self) = get_infix_token_meta self"
  by (intro ext) (simp add: get_infix_token_meta_def find_infix_without_empty_matches)

lemma affix_body_without_empty_matches:
  "affix_body (without_empty_matches self) st = affix_body self st"
  unfolding affix_body_def find_prefix_without_empty_matches find_suffix_without_empty_matches
    special_cases_without_empty_matches get_prefix_token_meta_without_empty_matches
    get_suffix_token_meta_without_empty_matches
  by (rule refl)

lemma affix_loop_without_empty_matches:
  assumes wf: "wf_search (prefix_search self)" "wf_search (suffix_search self)"
  shows "affix_loop (without_empty_matches self) st = affix_loop self st"
proof (induction "length (fst st)" arbitrary: st rule: less_induct)
  case less
  show ?case
  proof (cases "find_prefix self (fst st) \<noteq> 0 \<or> find_suffix self (fst st) \<noteq> 0")
    case False
    then show ?thesis
      by (simp add: affix_loop.simps [of _ st] find_prefix_without_empty_matches
            find_suffix_without_empty_matches)
  next
    case True
    show ?thesis
    proof (cases "affix_body self st")
      case (Break st')
      with True show ?thesis
        by (simp add: affix_loop.simps [of _ st] find_prefix_without_empty_matches
            find_suffix_without_empty_matches affix_body_without_empty_matches)
    next
      case (Continue st')
      from less.hyps [OF affix_body_shrinks [OF wf True Continue]] True Continue
      show ?thesis
        by (simp add: affix_loop.simps [of _ st] find_prefix_without_empty_matches
            find_suffix_without_empty_matches affix_body_without_empty_matches)
    qed
  qed
qed

lemma split_affixes_without_empty_matches:
  assumes wf: "wf_search (prefix_search self)" "wf_search (suffix_search self)"
  shows "split_affixes (without_empty_matches self) s pos = split_affixes self s pos"
  unfolding split_affixes_def affix_loop_without_empty_matches [OF wf]
    special_cases_without_empty_matches find_infix_without_empty_matches
    get_infix_token_meta_without_empty_matches
  by (rule refl)

lemma wf_search_example:
  "wf_search (prefix_search example_tokenizer)" "wf_search (suffix_search example_tokenizer)"
  using wf_example_tokenizer by (simp_all add: wf_tokenizer_def)

section \<open>Claim C5: the affix-stripping loop terminates\<close>

text \<open>
  Claim C5: for prefix and suffix matchers whose matches lie within the searched string,
  among them matchers that match the empty string, \<^verbatim>\<open>_split_affixes\<close> returns; every pass
  through the loop body that does not leave the loop strictly shortens the substring, so
  the number of passes is bounded by the length of the run; and a zero-length prefix or
  suffix match is treated as no match: replacing every zero-length match of the matchers
  by "no match" does not change the result.
\<close>

theorem affix_stripping_terminates:
  assumes "wf_search (prefix_search self)" and "wf_search (suffix_search self)"
  shows "(\<exists>r. split_affixes self substring pos = Some r)
       \<and> (\<forall>st st'. (find_prefix self (fst st) \<noteq> 0 \<or> find_suffix self (fst st) \<noteq> 0)
              \<and> affix_body self st = Continue st' \<longrightarrow> length (fst st') < length (fst st))
       \<and> split_affixes (without_empty_matches self) substring pos
           = split_affixes self substring pos"
  using split_affixes_terminates [OF assms] affix_body_shrinks [OF assms]
        split_affixes_without_empty_matches [OF assms]
  by blast

theorem affix_stripping_terminates_witness:
  "wf_search (prefix_search example_tokenizer) \<and> wf_search (suffix_search example_tokenizer)
   \<and> prefix_search example_tokenizer = Some open_paren
   \<and> open_paren ''x))'' = Some \<lparr>match_start = 0, match_end = 0\<rparr>
   \<and> (\<exists>r. split_affixes example_tokenizer ''x))'' 0 = Some r)
   \<and> split_affixes (without_empty_matches example_tokenizer) ''x))'' 0
       = split_affixes example_tokenizer ''x))'' 0"
  using affix_stripping_terminates [OF wf_search_example, of "''x))''" 0] wf_search_example
  by (simp add: example_tokenizer_def open_paren_def)

section \<open>Exception keys in the affix-stripping loop\<close>

lemma affix_body_key:
  "special_cases self (fst st) \<noteq> None \<Longrightarrow> affix_body self st = Break st"
  by (cases st) (simp add: affix_body_def)

lemma affix_loop_key:
  "special_cases self (fst st) \<noteq> None \<Longrightarrow> affix_loop self st = Some st"
  by (subst affix_loop.simps) (simp add: affix_body_key)

lemma affix_loop_continue:
  "find_prefix self (fst st) \<noteq> 0 \<or> find_suffix self (fst st) \<noteq> 0 \<Longrightarrow>
   affix_body self st = Continue st' \<Longrightarrow> affix_loop self st = affix_loop self st'"
  by (subst affix_loop.simps) simp

lemma affix_loop_break:
  "find_prefix self (fst st) \<noteq> 0 \<or> find_suffix self (fst st) \<noteq> 0 \<Longrightarrow>
   affix_body self st = Break st' \<Longrightarrow> affix_loop self st = Some st'"
  by (subst affix_loop.simps) simp

lemma split_affixes_resolves:
  "run \<noteq> [] \<Longrightarrow> affix_loop self (run, start, [], []) = Some (s1, p1, prefixes, suffixes) \<Longrightarrow>
   special_cases self s1 = Some entry \<Longrightarrow>
   split_affixes self run start
     = Some ([], p1, prefixes, suffixes, [], get_special_cases_token_meta entry p1)"
  by (simp add: split_affixes_def)

lemma split_affixes_key:
  "run \<noteq> [] \<Longrightarrow> special_cases self run = Some entry \<Longrightarrow>
   split_affixes self run start
     = Some ([], start, [], [], [], get_special_cases_token_meta entry start)"
  by (rule split_affixes_resolves) (simp_all add: affix_loop_key)

lemma length_special_cases_loop: "length (special_cases_loop entry pos) = length entry"
  by (induction entry arbitrary: pos) (simp_all add: Let_def)

section \<open>Claim C6: exception entries whose lengths do not match the key\<close>

text \<open>
  Claim C6, as stated, asks that an entry whose sub-token lengths do not sum to the length
  of its key is detected and rejected. With the entry \<^verbatim>\<open>"ab" -> ["a"]\<close> the document
  \<^verbatim>\<open>"ab c"\<close> is tokenized without any error into the spans \<open>(0, 0)\<close> and \<open>(3, 3)\<close>: the
  positions 1 and 2 are covered by no span and by no \<open>space_after\<close> flag.
\<close>


theorem exception_mismatch_counterexample:
  "special_cases mismatch_tokenizer ''ab'' = Some [''a'']
   \<and> sum_list (map length [''a'']) \<noteq> length ''ab''
   \<and> call mismatch_tokenizer ''ab c'' = Some (Inr \<lparr>doc_text = ''ab c'', container =
        [\<lparr>start_pos = 0, end_pos = Some 0, space_after = True, is_space = False\<rparr>,
         \<lparr>start_pos = 3, end_pos = Some 3, space_after = False, is_space = False\<rparr>]\<rparr>)"
proof -
  have "call mismatch_tokenizer ''ab c'' = Some (Inr \<lparr>doc_text = ''ab c'', container =
        [\<lparr>start_pos = 0, end_pos = Some 0, space_after = True, is_space = False\<rparr>,
         \<lparr>start_pos = 3, end_pos = Some 3, space_after = False, is_space = False\<rparr>]\<rparr>)"
    by code_simp
  then show ?thesis by (simp add: mismatch_tokenizer_def)
qed

text \<open>
  Claim C6, amended: the tokenizer makes no consistency check on an exception-table entry
  and never rejects one. For every key with a non-empty entry, whatever the declared
  sub-token lengths, a run equal to the key is tokenized without error into one span per
  sub-token; these spans are contiguous from the start of the run and cover as many
  positions as the declared lengths sum to (the run itself only when that sum is the length
  of the key).
\<close>


theorem exception_entry_never_rejected:
  assumes "special_cases self key = Some entry" and "key \<noteq> []" and "entry \<noteq> []"
  shows "tokenize self key tm doc =
           Some (Inr (doc\<lparr>container := container doc
                       @ butlast (get_special_cases_token_meta entry (start_pos tm))
                       @ [(last (get_special_cases_token_meta entry (start_pos tm)))
                            \<lparr>space_after := space_after tm\<rparr>]\<rparr>))
         \<and> length (get_special_cases_token_meta entry (start_pos tm)) = length entry
         \<and> chain (start_pos tm) (get_special_cases_token_meta entry (start_pos tm))
                 (start_pos tm + int (sum_list (map length entry)))"
proof -
  let ?sp = "get_special_cases_token_meta entry (start_pos tm)"
  have len: "length ?sp = length entry"
    by (simp add: get_special_cases_token_meta_def length_special_cases_loop)
  with assms(3) have ne: "?sp \<noteq> []" by auto
  have "attach_tokens doc [] (start_pos tm) (space_after tm) [] [] [] ?sp =
          Inr (doc\<lparr>container := container doc @ butlast ?sp
                       @ [(last ?sp)\<lparr>space_after := space_after tm\<rparr>]\<rparr>)"
    using ne by (simp add: attach_tokens_def run_tokens_eq Let_def butlast_append)
  with split_affixes_key [OF assms(2,1), of "start_pos tm"] len
       chain_special_cases_loop [of "start_pos tm" entry]
  show ?thesis by (simp add: tokenize_def get_special_cases_token_meta_def)
qed

theorem exception_entry_never_rejected_witness:
  "special_cases mismatch_tokenizer ''ab'' = Some [''a'']
   \<and> tokenize mismatch_tokenizer ''ab''
        \<lparr>start_pos = 0, end_pos = Some 1, space_after = True, is_space = False\<rparr>
        \<lparr>doc_text = ''ab c'', container = []\<rparr>
      = Some (Inr \<lparr>doc_text = ''ab c'', container =
          [\<lparr>start_pos = 0, end_pos = Some 0, space_after = True, is_space = False\<rparr>]\<rparr>)
   \<and> length (get_special_cases_token_meta [''a''] 0) = length [''a'']
   \<and> chain 0 (get_special_cases_token_meta [''a''] 0) (0 + int (sum_list (map length [''a''])))"
proof -
  have h1: "special_cases mismatch_tokenizer ''ab'' = Some [''a'']"
    by (simp add: mismatch_tokenizer_def)
  have h2: "''ab'' \<noteq> []" and h3: "[''a''] \<noteq> []" by simp_all
  from exception_entry_never_rejected [OF h1 h2 h3,
         where tm = "\<lparr>start_pos = 0, end_pos = Some 1, space_after = True, is_space = False\<rparr>"
           and doc = "\<lparr>doc_text = ''ab c'', container = []\<rparr>"] h1
  show ?thesis by (simp add: get_special_cases_token_meta_def Let_def)
qed

section \<open>Claim C8: exception keys take precedence over affix stripping\<close>

text \<open>
  Claim C8: the exception table is consulted on the current substring before any prefix
  is stripped and after each stripping step, and stripping stops as soon as the substring
  is a key. In the loop: a state whose substring is a key is returned unchanged; when the
  substring left by a prefix step is a key, the loop returns right after that step, without
  a suffix step; when the substring left at the end of a pass is a key, the loop returns
  that state. After the loop a key is resolved through the table; in particular a raw run
  that is a key is resolved through the table with no prefix or suffix detached, whatever
  the prefix and suffix matchers match.
\<close>


theorem exception_key_stops_stripping:
  "(special_cases self (fst st) \<noteq> None \<longrightarrow> affix_loop self st = Some st)
   \<and> (special_cases self s = None \<and> find_prefix self s \<noteq> 0
        \<and> get_prefix_token_meta self s pos = (tm, s', pos') \<and> special_cases self s' \<noteq> None
      \<longrightarrow> affix_loop self (s, pos, pre, suf)
            = Some (s', pos', (case tm of None \<Rightarrow> pre | Some t \<Rightarrow> pre @ [t]), suf))
   \<and> ((find_prefix self (fst st) \<noteq> 0 \<or> find_suffix self (fst st) \<noteq> 0)
        \<and> affix_body self st = Continue st' \<and> special_cases self (fst st') \<noteq> None
      \<longrightarrow> affix_loop self st = Some st')
   \<and> (run \<noteq> [] \<and> affix_loop self (run, start, [], []) = Some (s1, p1, prefixes, suffixes)
        \<and> special_cases self s1 = Some entry
      \<longrightarrow> split_affixes self run start
            = Some ([], p1, prefixes, suffixes, [], get_special_cases_token_meta entry p1))
   \<and> (run \<noteq> [] \<and> special_cases self run = Some entry'
      \<longrightarrow> split_affixes self run start
            = Some ([], start, [], [], [], get_special_cases_token_meta entry' start))"
proof (intro conjI impI)
  assume "special_cases self (fst st) \<noteq> None"
  then show "affix_loop self st = Some st" by (rule affix_loop_key)
next
  assume a: "special_cases self s = None \<and> find_prefix self s \<noteq> 0
        \<and> get_prefix_token_meta self s pos = (tm, s', pos') \<and> special_cases self s' \<noteq> None"
  then have "affix_body self (s, pos, pre, suf)
      = Break (s', pos', (case tm of None \<Rightarrow> pre | Some t \<Rightarrow> pre @ [t]), suf)"
    by (simp add: affix_body_def)
  with a show "affix_loop self (s, pos, pre, suf)
            = Some (s', pos', (case tm of None \<Rightarrow> pre | Some t \<Rightarrow> pre @ [t]), suf)"
    by (intro affix_loop_break) simp_all
next
  assume a: "(find_prefix self (fst st) \<noteq> 0 \<or> find_suffix self (fst st) \<noteq> 0)
        \<and> affix_body self st = Continue st' \<and> special_cases self (fst st') \<noteq> None"
  then have "affix_loop self st = affix_loop self st'"
    by (intro affix_loop_continue) simp_all
  with a show "affix_loop self st = Some st'" by (simp add: affix_loop_key)
next
  assume "run \<noteq> [] \<and> affix_loop self (run, start, [], []) = Some (s1, p1, prefixes, suffixes)
        \<and> special_cases self s1 = Some entry"
  then have "run \<noteq> []" "affix_loop self (run, start, [], []) = Some (s1, p1, prefixes, suffixes)"
    "special_cases self s1 = Some entry" by simp_all
  then show "split_affixes self run start
            = Some ([], p1, prefixes, suffixes, [], get_special_cases_token_meta entry p1)"
    by (rule split_affixes_resolves)
next
  assume "run \<noteq> [] \<and> special_cases self run = Some entry'"
  then have "run \<noteq> []" "special_cases self run = Some entry'" by simp_all
  then show "split_affixes self run start
            = Some ([], start, [], [], [], get_special_cases_token_meta entry' start)"
    by (rule split_affixes_key)
qed

theorem exception_key_stops_stripping_witness:
  "find_prefix example_tokenizer ''(-)'' = 1 \<and> find_suffix example_tokenizer ''(-)'' = 1
   \<and> affix_loop example_tokenizer (''(-)'', 0, [], []) = Some (''(-)'', 0, [], [])
   \<and> affix_loop example_tokenizer (''((-)'', 0, [], [])
       = Some (''(-)'', 1,
               [\<lparr>start_pos = 0, end_pos = Some 0, space_after = False, is_space = False\<rparr>], [])
   \<and> affix_loop example_tokenizer (''cannot)'', 0, [], [])
       = Some (''cannot'', 0, [],
               [\<lparr>start_pos = 6, end_pos = Some 6, space_after = False, is_space = False\<rparr>])
   \<and> split_affixes example_tokenizer ''cannot)'' 0
       = Some ([], 0, [],
               [\<lparr>start_pos = 6, end_pos = Some 6, space_after = False, is_space = False\<rparr>], [],
               get_special_cases_token_meta [''can'', ''not''] 0)
   \<and> split_affixes example_tokenizer ''(-)'' 0
       = Some ([], 0, [], [], [], get_special_cases_token_meta [''(-)''] 0)"
proof -
  have k1: "special_cases example_tokenizer ''(-)'' = Some [''(-)'']"
    and k2: "special_cases example_tokenizer ''cannot'' = Some [''can'', ''not'']"
    and n1: "special_cases example_tokenizer ''((-)'' = None"
    by (simp_all add: example_tokenizer_def)
  have p1: "find_prefix example_tokenizer ''(-)'' = 1"
    and p2: "find_prefix example_tokenizer ''((-)'' = 1"
    and s1: "find_suffix example_tokenizer ''(-)'' = 1"
    and s2: "find_suffix example_tokenizer ''cannot)'' = 1"
    by (simp_all add: example_tokenizer_def find_prefix_def find_suffix_def open_paren_def
                      close_paren_def)
  have g: "get_prefix_token_meta example_tokenizer ''((-)'' 0
       = (Some \<lparr>start_pos = 0, end_pos = Some 0, space_after = False, is_space = False\<rparr>,
          ''(-)'', 1)"
    by (simp add: get_prefix_token_meta_def p2 py_slice_from_def slice_bound_def)
  have b: "affix_body example_tokenizer (''cannot)'', 0, [], [])
       = Continue (''cannot'', 0, [],
               [\<lparr>start_pos = 6, end_pos = Some 6, space_after = False, is_space = False\<rparr>])"
    by code_simp
  have c1: "affix_loop example_tokenizer (''(-)'', 0, [], []) = Some (''(-)'', 0, [], [])"
    using exception_key_stops_stripping
            [where self = example_tokenizer and st = "(''(-)'', 0, [], [])"] k1
    by simp
  have c2: "affix_loop example_tokenizer (''((-)'', 0, [], [])
       = Some (''(-)'', 1,
               [\<lparr>start_pos = 0, end_pos = Some 0, space_after = False, is_space = False\<rparr>], [])"
    using exception_key_stops_stripping
            [where self = example_tokenizer and s = "''((-)''" and pos = 0 and pre = "[]"
               and suf = "[]" and s' = "''(-)''" and pos' = 1
               and tm = "Some \<lparr>start_pos = 0, end_pos = Some 0, space_after = False,
                                 is_space = False\<rparr>"]
          k1 n1 p2 g
    by simp
  have c3: "affix_loop example_tokenizer (''cannot)'', 0, [], [])
       = Some (''cannot'', 0, [],
               [\<lparr>start_pos = 6, end_pos = Some 6, space_after = False, is_space = False\<rparr>])"
    using exception_key_stops_stripping
            [where self = example_tokenizer and st = "(''cannot)'', 0, [], [])"
               and st' = "(''cannot'', 0, [],
               [\<lparr>start_pos = 6, end_pos = Some 6, space_after = False, is_space = False\<rparr>])"]
          k2 s2 b
    by simp
  have c4: "split_affixes example_tokenizer ''cannot)'' 0
       = Some ([], 0, [],
               [\<lparr>start_pos = 6, end_pos = Some 6, space_after = False, is_space = False\<rparr>], [],
               get_special_cases_token_meta [''can'', ''not''] 0)"
    using exception_key_stops_stripping
            [where self = example_tokenizer and run = "''cannot)''" and start = 0
               and ?s1.0 = "''cannot''" and ?p1.0 = 0 and prefixes = "[]"
               and suffixes = "[\<lparr>start_pos = 6, end_pos = Some 6, space_after = False,
                                  is_space = False\<rparr>]"
               and entry = "[''can'', ''not'']"]
          k2 c3
    by simp
  have c5: "split_affixes example_tokenizer ''(-)'' 0
       = Some ([], 0, [], [], [], get_special_cases_token_meta [''(-)''] 0)"
    using exception_key_stops_stripping
            [where self = example_tokenizer and run = "''(-)''" and start = 0
               and entry' = "[''(-)'']"]
          k1
    by simp
  from p1 s1 c1 c2 c3 c4 c5 show ?thesis by simp
qed

section \<open>Claim C9: the outcome groups of a run\<close>

lemma split_affixes_exclusive:
  assumes "split_affixes self s pos = Some (sub, p, pre, suf, ifx, spec)"
  shows "\<not> (spec \<noteq> [] \<and> sub \<noteq> []) \<and> \<not> (spec \<noteq> [] \<and> ifx \<noteq> []) \<and> \<not> (sub \<noteq> [] \<and> ifx \<noteq> [])"
  using assms
  by (auto simp: split_affixes_def split: if_splits option.splits)

text \<open>
  Claim C9, as stated, asks that exactly one of the exception spans, the remaining-core
  span and the infix spans is non-empty, also when affix stripping consumes the whole run.
  On the run \<^verbatim>\<open>"()"\<close> the prefix and the suffix step consume the run: the remaining
  substring is empty and there are neither exception spans nor infix spans.
\<close>


theorem outcome_groups_counterexample:
  "wf_tokenizer example_tokenizer
   \<and> split_affixes example_tokenizer ''()'' 0
       = Some ([], 1,
               [\<lparr>start_pos = 0, end_pos = Some 0, space_after = False, is_space = False\<rparr>],
               [\<lparr>start_pos = 1, end_pos = Some 1, space_after = False, is_space = False\<rparr>],
               [], [])"
proof -
  have "split_affixes example_tokenizer ''()'' 0
       = Some ([], 1,
               [\<lparr>start_pos = 0, end_pos = Some 0, space_after = False, is_space = False\<rparr>],
               [\<lparr>start_pos = 1, end_pos = Some 1, space_after = False, is_space = False\<rparr>],
               [], [])"
    by code_simp
  with wf_example_tokenizer show ?thesis by simp
qed

text \<open>
  Claim C9, amended: for every run, at most one of the exception spans, the remaining-core
  span and the infix spans is non-empty; and for a well-formed configuration all three are
  empty only when the prefix spans followed by the reversed suffix spans tile the whole
  run, that is when affix stripping has consumed it.
\<close>


theorem outcome_groups_at_most_one:
  assumes "split_affixes self s pos = Some (sub, p, pre, suf, ifx, spec)"
  shows "\<not> (spec \<noteq> [] \<and> sub \<noteq> []) \<and> \<not> (spec \<noteq> [] \<and> ifx \<noteq> []) \<and> \<not> (sub \<noteq> [] \<and> ifx \<noteq> [])
         \<and> (wf_tokenizer self \<and> spec = [] \<and> sub = [] \<and> ifx = []
              \<longrightarrow> chain pos (pre @ rev suf) (pos + int (length s)))"
proof -
  have "chain pos (pre @ rev suf) (pos + int (length s))"
    if "wf_tokenizer self" "spec = []" "sub = []" "ifx = []"
    using split_affixes_chain [OF that(1), of s pos] assms that(2-)
    by (simp add: run_tokens_eq)
  with split_affixes_exclusive [OF assms] show ?thesis by blast
qed

theorem outcome_groups_at_most_one_witness:
  "split_affixes example_tokenizer '')'' 5
       = Some ([], 5, [],
               [\<lparr>start_pos = 5, end_pos = Some 5, space_after = False, is_space = False\<rparr>],
               [], [])
   \<and> wf_tokenizer example_tokenizer
   \<and> chain 5 ([] @ rev [\<lparr>start_pos = 5, end_pos = Some 5, space_after = False,
                          is_space = False\<rparr>]) (5 + int (length '')''))"
proof -
  have h: "split_affixes example_tokenizer '')'' 5
       = Some ([], 5, [],
               [\<lparr>start_pos = 5, end_pos = Some 5, space_after = False, is_space = False\<rparr>],
               [], [])"
    by code_simp
  from outcome_groups_at_most_one [OF h] h wf_example_tokenizer show ?thesis by blast
qed

section \<open>Claim C10: the trailing-space fix-up\<close>

text \<open>
  Claim C10, as stated, holds of every non-whitespace run. With the exception entry
  \<^verbatim>\<open>"ab" -> []\<close> the run \<^verbatim>\<open>"ab"\<close> contributes no span, and the \<^verbatim>\<open>pop\<close> of the fix-up takes
  the last span appended before the run: on \<^verbatim>\<open>"x ab"\<close> the span of the earlier run
  \<^verbatim>\<open>"x"\<close> has its \<open>space_after\<close> rewritten from true to false, and on \<^verbatim>\<open>"ab"\<close>, where the
  container is empty, the call raises \<^verbatim>\<open>IndexError\<close>.
\<close>

theorem trailing_space_fixup_counterexample:
  "tokenize empty_entry_tokenizer ''ab''
      \<lparr>start_pos = 2, end_pos = None, space_after = False, is_space = False\<rparr>
      \<lparr>doc_text = ''x ab'', container =
         [\<lparr>start_pos = 0, end_pos = Some 0, space_after = True, is_space = False\<rparr>]\<rparr>
     = Some (Inr \<lparr>doc_text = ''x ab'', container =
         [\<lparr>start_pos = 0, end_pos = Some 0, space_after = False, is_space = False\<rparr>]\<rparr>)
   \<and> call empty_entry_tokenizer ''x ab''
     = Some (Inr \<lparr>doc_text = ''x ab'', container =
         [\<lparr>start_pos = 0, end_pos = Some 0, space_after = False, is_space = False\<rparr>]\<rparr>)
   \<and> call empty_entry_tokenizer ''ab'' = Some (Inl IndexError)"
proof -
  have "tokenize empty_entry_tokenizer ''ab''
      \<lparr>start_pos = 2, end_pos = None, space_after = False, is_space = False\<rparr>
      \<lparr>doc_text = ''x ab'', container =
         [\<lparr>start_pos = 0, end_pos = Some 0, space_after = True, is_space = False\<rparr>]\<rparr>
     = Some (Inr \<lparr>doc_text = ''x ab'', container =
         [\<lparr>start_pos = 0, end_pos = Some 0, space_after = False, is_space = False\<rparr>]\<rparr>)"
    by code_simp
  moreover have "call empty_entry_tokenizer ''x ab''
     = Some (Inr \<lparr>doc_text = ''x ab'', container =
         [\<lparr>start_pos = 0, end_pos = Some 0, space_after = False, is_space = False\<rparr>]\<rparr>)"
    by code_simp
  moreover have "call empty_entry_tokenizer ''ab'' = Some (Inl IndexError)"
    by code_simp
  ultimately show ?thesis by simp
qed

text \<open>
  Claim C10, amended: for every run whose span list is not empty, say \<open>ts @ [t]\<close>,
  \<^verbatim>\<open>_attach_tokens\<close> returns the document whose container is the previous container, then
  \<open>ts\<close>, then \<open>t\<close> with \<open>space_after\<close> set to the boundary value; nothing else changes,
  neither the spans appended before nor the other fields of \<open>t\<close>. For a well-formed
  configuration every non-empty run has such a non-empty span list, so that \<^verbatim>\<open>_tokenize\<close>
  changes the flag of the last span of the run and of no span of an earlier run.
\<close>

theorem trailing_space_fixup:
  "(run_tokens substring start prefixes suffixes infixes special_tokens = ts @ [t]
     \<longrightarrow> attach_tokens doc substring start sa prefixes suffixes infixes special_tokens
           = Inr (doc\<lparr>container := container doc @ ts @ [t\<lparr>space_after := sa\<rparr>]\<rparr>))
   \<and> (wf_tokenizer self \<and> s \<noteq> []
     \<longrightarrow> (\<exists>sub p pre suf ifx spec ts' t'.
            split_affixes self s (start_pos tm) = Some (sub, p, pre, suf, ifx, spec)
            \<and> run_tokens sub p pre suf ifx spec = ts' @ [t']
            \<and> tokenize self s tm doc
                = Some (Inr (doc\<lparr>container := container doc @ ts'
                                   @ [t'\<lparr>space_after := space_after tm\<rparr>]\<rparr>))))"
proof (intro conjI impI)
  assume "run_tokens substring start prefixes suffixes infixes special_tokens = ts @ [t]"
  then show "attach_tokens doc substring start sa prefixes suffixes infixes special_tokens
           = Inr (doc\<lparr>container := container doc @ ts @ [t\<lparr>space_after := sa\<rparr>]\<rparr>)"
    by (simp add: attach_tokens_def Let_def butlast_append)
next
  assume a: "wf_tokenizer self \<and> s \<noteq> []"
  from split_affixes_chain [of self s "start_pos tm"] a
  obtain sub p pre suf ifx spec where
    sp: "split_affixes self s (start_pos tm) = Some (sub, p, pre, suf, ifx, spec)"
    and c: "chain (start_pos tm) (run_tokens sub p pre suf ifx spec) (start_pos tm + int (length s))"
    by blast
  from a have "start_pos tm < start_pos tm + int (length s)" by simp
  with c have "run_tokens sub p pre suf ifx spec \<noteq> []" by (rule chain_nonempty)
  then obtain ts' t' where rt: "run_tokens sub p pre suf ifx spec = ts' @ [t']"
    by (cases "run_tokens sub p pre suf ifx spec" rule: rev_cases) auto
  then have "attach_tokens doc sub p (space_after tm) pre suf ifx spec
           = Inr (doc\<lparr>container := container doc @ ts' @ [t'\<lparr>space_after := space_after tm\<rparr>]\<rparr>)"
    by (simp add: attach_tokens_def Let_def butlast_append)
  with sp rt show "\<exists>sub p pre suf ifx spec ts' t'.
            split_affixes self s (start_pos tm) = Some (sub, p, pre, suf, ifx, spec)
            \<and> run_tokens sub p pre suf ifx spec = ts' @ [t']
            \<and> tokenize self s tm doc
                = Some (Inr (doc\<lparr>container := container doc @ ts'
                                   @ [t'\<lparr>space_after := space_after tm\<rparr>]\<rparr>))"
    by (simp add: tokenize_def)
qed

theorem trailing_space_fixup_witness:
  "run_tokens ''x'' 1
     [\<lparr>start_pos = 0, end_pos = Some 0, space_after = False, is_space = False\<rparr>]
     [\<lparr>start_pos = 2, end_pos = Some 2, space_after = False, is_space = False\<rparr>] [] []
   = [\<lparr>start_pos = 0, end_pos = Some 0, space_after = False, is_space = False\<rparr>,
      \<lparr>start_pos = 1, end_pos = Some 1, space_after = False, is_space = False\<rparr>]
     @ [\<lparr>start_pos = 2, end_pos = Some 2, space_after = False, is_space = False\<rparr>]
   \<and> attach_tokens \<lparr>doc_text = ''(x) y'', container = []\<rparr> ''x'' 1 True
       [\<lparr>start_pos = 0, end_pos = Some 0, space_after = False, is_space = False\<rparr>]
       [\<lparr>start_pos = 2, end_pos = Some 2, space_after = False, is_space = False\<rparr>] [] []
     = Inr \<lparr>doc_text = ''(x) y'', container =
         [\<lparr>start_pos = 0, end_pos = Some 0, space_after = False, is_space = False\<rparr>,
          \<lparr>start_pos = 1, end_pos = Some 1, space_after = False, is_space = False\<rparr>,
          \<lparr>start_pos = 2, end_pos = Some 2, space_after = True, is_space = False\<rparr>]\<rparr>
   \<and> wf_tokenizer example_tokenizer
   \<and> (\<exists>sub p pre suf ifx spec ts' t'.
        split_affixes example_tokenizer ''(x)'' 0 = Some (sub, p, pre, suf, ifx, spec)
        \<and> run_tokens sub p pre suf ifx spec = ts' @ [t']
        \<and> tokenize example_tokenizer ''(x)''
             \<lparr>start_pos = 0, end_pos = Some 2, space_after = True, is_space = False\<rparr>
             \<lparr>doc_text = ''(x) y'', container = []\<rparr>
           = Some (Inr (\<lparr>doc_text = ''(x) y'', container = []\<rparr>
                \<lparr>container := container \<lparr>doc_text = ''(x) y'', container = []\<rparr> @ ts'
                                   @ [t'\<lparr>space_after := True\<rparr>]\<rparr>)))"
proof -
  let ?pre = "\<lparr>start_pos = 0, end_pos = Some 0, space_after = False, is_space = False\<rparr>"
  let ?core = "\<lparr>start_pos = 1, end_pos = Some 1, space_after = False, is_space = False\<rparr>"
  let ?suf = "\<lparr>start_pos = 2, end_pos = Some 2, space_after = False, is_space = False\<rparr>"
  let ?doc = "\<lparr>doc_text = ''(x) y'', container = []\<rparr>"
  have r: "run_tokens ''x'' 1 [?pre] [?suf] [] [] = [?pre, ?core] @ [?suf]"
    by (simp add: run_tokens_def)
  have a: "attach_tokens ?doc ''x'' 1 True [?pre] [?suf] [] []
       = Inr (?doc\<lparr>container := container ?doc @ [?pre, ?core] @ [?suf\<lparr>space_after := True\<rparr>]\<rparr>)"
    using trailing_space_fixup
            [where substring = "''x''" and start = 1 and prefixes = "[?pre]"
               and suffixes = "[?suf]" and infixes = "[]" and special_tokens = "[]"
               and ts = "[?pre, ?core]" and t = ?suf and doc = ?doc and sa = True] r
    by blast
  have b: "\<exists>sub p pre suf ifx spec ts' t'.
        split_affixes example_tokenizer ''(x)'' 0 = Some (sub, p, pre, suf, ifx, spec)
        \<and> run_tokens sub p pre suf ifx spec = ts' @ [t']
        \<and> tokenize example_tokenizer ''(x)''
             \<lparr>start_pos = 0, end_pos = Some 2, space_after = True, is_space = False\<rparr> ?doc
           = Some (Inr (?doc\<lparr>container := container ?doc @ ts' @ [t'\<lparr>space_after := True\<rparr>]\<rparr>))"
    using trailing_space_fixup
            [where self = example_tokenizer and s = "''(x)''" and doc = ?doc
               and tm = "\<lparr>start_pos = 0, end_pos = Some 2, space_after = True, is_space = False\<rparr>"]
          wf_example_tokenizer
    by simp
  from r a b wf_example_tokenizer show ?thesis by simp
qed

section \<open>Claim C7: zero-length infix matches\<close>

lemma py_slice_same: "py_slice s a a = []"
  by (simp add: py_slice_def)

text \<open>
  Claim C7, as stated, asks that the spans are those produced when the zero-length matches
  are absent from the output of the infix matcher. With an infix matcher that reports one
  zero-length match after the second character, \<^verbatim>\<open>"abcd"\<close> is split into \<open>(0, 1)\<close> and
  \<open>(2, 3)\<close>; with that match removed the run is the single span \<open>(0, 3)\<close>.
\<close>


theorem zero_length_infix_counterexample:
  "call zero_width_tokenizer ''abcd'' = Some (Inr \<lparr>doc_text = ''abcd'', container =
        [\<lparr>start_pos = 0, end_pos = Some 1, space_after = False, is_space = False\<rparr>,
         \<lparr>start_pos = 2, end_pos = Some 3, space_after = False, is_space = False\<rparr>]\<rparr>)
   \<and> call (zero_width_tokenizer\<lparr>infix_finditer := Some (drop_empty_infix after_two)\<rparr>) ''abcd''
       = Some (Inr \<lparr>doc_text = ''abcd'', container =
        [\<lparr>start_pos = 0, end_pos = Some 3, space_after = False, is_space = False\<rparr>]\<rparr>)"
proof -
  have "call zero_width_tokenizer ''abcd'' = Some (Inr \<lparr>doc_text = ''abcd'', container =
        [\<lparr>start_pos = 0, end_pos = Some 1, space_after = False, is_space = False\<rparr>,
         \<lparr>start_pos = 2, end_pos = Some 3, space_after = False, is_space = False\<rparr>]\<rparr>)"
    by code_simp
  moreover have "call (zero_width_tokenizer\<lparr>infix_finditer := Some (drop_empty_infix after_two)\<rparr>)
        ''abcd''
       = Some (Inr \<lparr>doc_text = ''abcd'', container =
        [\<lparr>start_pos = 0, end_pos = Some 3, space_after = False, is_space = False\<rparr>]\<rparr>)"
    by code_simp
  ultimately show ?thesis by simp
qed

text \<open>
  Claim C7, amended: a zero-length infix match within the substring raises no error and
  yields no span for the matched region. When it lies at the current offset of the scan
  (the end of the preceding match, or 0) the loop state is unchanged, as if the match were
  absent. When it lies to the right of the current offset, the non-empty gap before it is
  still closed as a span of its own, so that the run is split at the position of the match.
\<close>


theorem zero_length_infix_match:
  assumes "match_start m = match_end m" and "0 \<le> offset" and "offset \<le> match_start m"
    and "match_end m \<le> int (length s)"
  shows "infix_step s (offset, e, pos, metas) m =
           (if offset < match_start m
            then (match_end m, pos + (match_start m - offset) - 1, pos + (match_start m - offset),
                  metas @ [\<lparr>start_pos = pos, end_pos = Some (pos + (match_start m - offset) - 1),
                             space_after = False, is_space = False\<rparr>])
            else (offset, e, pos, metas))"
proof -
  have ne1: "(py_slice s offset (match_start m) \<noteq> []) = (offset < match_start m)"
    using assms by (intro py_slice_nonempty) auto
  have l1: "int (length (py_slice s offset (match_start m))) = match_start m - offset"
    using assms by (intro length_py_slice) auto
  have e2: "py_slice s (match_start m) (match_end m) = []"
    using assms(1) by (simp add: py_slice_same)
  show ?thesis
  proof (cases "offset < match_start m")
    case True
    then show ?thesis by (simp add: infix_step_def ne1 l1 e2 Let_def)
  next
    case False
    with assms have ms: "match_start m = offset" and me: "match_end m = offset" by simp_all
    show ?thesis by (simp add: infix_step_def ms me py_slice_same Let_def)
  qed
qed

theorem zero_length_infix_match_witness:
  "infix_step ''abcd'' (0, 0, 7, []) \<lparr>match_start = 2, match_end = 2\<rparr>
     = (2, 8, 9, [\<lparr>start_pos = 7, end_pos = Some 8, space_after = False, is_space = False\<rparr>])
   \<and> infix_step ''abcd'' (2, 8, 9, []) \<lparr>match_start = 2, match_end = 2\<rparr> = (2, 8, 9, [])"
  using zero_length_infix_match [of "\<lparr>match_start = 2, match_end = 2\<rparr>" 0 "''abcd''" 0 7 "[]"]
        zero_length_infix_match [of "\<lparr>match_start = 2, match_end = 2\<rparr>" 2 "''abcd''" 8 9 "[]"]
  by simp

end
